theory Spec2Isabelle
  imports Main "HOL-Library.Sublist" "HOL-Library.List_Lexorder" "HOL-Library.Char_ord"
begin

section \<open>Python values used by cram.py\<close>

text \<open>
  Strings are byte strings (\<open>char list\<close>), as Python 2's \<open>str\<close> is. An exception is a
  value of \<open>py_error\<close>; a function that can raise returns \<open>py_error + 'a\<close>.
  \<open>Unmodelled\<close> is not a Python exception: it marks an input of a library function
  (a regular expression outside the fragment of \<open>re\<close> modelled below) for which this
  development does not say what Python does. It propagates like an exception that
  nothing catches. \<open>Hang\<close> is not an exception either: it stands for a call that never
  returns.
\<close>

datatype py_error =
  ReError | OverflowError | IndexError | ValueError | OSError | Unmodelled | Hang

abbreviation NL :: char where
  "NL \<equiv> CHR 0x0A"

abbreviation BSL :: char where
  "BSL \<equiv> CHR 0x5C"

definition startswith :: "string \<Rightarrow> string \<Rightarrow> bool" where
  "startswith s p = prefix p s"

definition endswith :: "string \<Rightarrow> string \<Rightarrow> bool" where
  "endswith s p = (length p \<le> length s \<and> drop (length s - length p) s = p)"

section \<open>The library function re.match, on a fragment of the pattern language\<close>

text \<open>
  \<open>re.match(pattern, s)\<close> compiles the pattern and looks for a match that starts at the
  first character of \<open>s\<close>; the match may end anywhere. The fragment modelled here:
  literal characters, \<open>.\<close> (any character but a newline), a backslash followed by a
  character that is not an ASCII letter or digit (that character, literally), the octal
  escape \<open>\0oo\<close>, and one of the greedy repeats \<open>*\<close>, \<open>+\<close>, \<open>?\<close> after such an atom.
  A repeat with nothing before it, a repeat of a repeat with \<open>*\<close> and a backslash at the
  end of the pattern raise \<open>re.error\<close>. A counted repeat \<open>{n}\<close> whose number is
  \<open>MAXREPEAT\<close> or more raises \<open>OverflowError\<close> (\<open>sre_parse\<close>: the repetition number is
  too large); the parser makes this test as soon as it has read the closing brace,
  before it looks at what the repeat applies to, which is why it sits with the atoms
  here. \<open>MAXREPEAT\<close> is 4294967295, the largest value it has in any build of CPython;
  \<open>repeat_number\<close> is \<open>int\<close> on a string of digits.
  Groups, alternation, classes, anchors, every other use of a brace, lazy and
  possessive repeats and the letter and digit escapes are \<open>Unmodelled\<close>.
\<close>

datatype atom = Lit char | AnyChar

datatype quant = One | Star | Plus | Opt

type_synonym re_item = "atom \<times> quant"

definition is_alnum :: "char \<Rightarrow> bool" where
  "is_alnum c =
     (let n = (of_char c :: nat)
      in (48 \<le> n \<and> n \<le> 57) \<or> (65 \<le> n \<and> n \<le> 90) \<or> (97 \<le> n \<and> n \<le> 122))"

definition is_octdigit :: "char \<Rightarrow> bool" where
  "is_octdigit c = (let n = (of_char c :: nat) in 48 \<le> n \<and> n \<le> 55)"

definition oct_run :: "string \<Rightarrow> string" where
  "oct_run s = takeWhile is_octdigit (take 2 s)"

definition oct_val :: "string \<Rightarrow> nat" where
  "oct_val ds = foldl (\<lambda>v d. 8 * v + (of_char d - 48)) 0 ds"

definition is_digit :: "char \<Rightarrow> bool" where
  "is_digit c = (let n = (of_char c :: nat) in 48 \<le> n \<and> n \<le> 57)"

definition repeat_number :: "string \<Rightarrow> int" where
  "repeat_number ds = foldl (\<lambda>v d. 10 * v + (of_char d - 48)) 0 ds"

definition MAXREPEAT :: int where
  "MAXREPEAT = 4294967295"

definition repeat_overflow :: "string \<Rightarrow> bool" where
  "repeat_overflow cs =
     (let lo = takeWhile is_digit cs
      in lo \<noteq> [] \<and> startswith (dropWhile is_digit cs) ''}'' \<and> MAXREPEAT \<le> repeat_number lo)"

fun re_quant :: "char \<Rightarrow> quant option" where
  "re_quant c =
     (if c = CHR ''*'' then Some Star
      else if c = CHR ''+'' then Some Plus
      else if c = CHR ''?'' then Some Opt
      else None)"

fun re_atom :: "string \<Rightarrow> py_error + (atom \<times> string)" where
  "re_atom [] = Inl ReError"
| "re_atom (c # cs) =
     (if c = CHR ''*'' \<or> c = CHR ''+'' \<or> c = CHR ''?'' then Inl ReError
      else if c = CHR ''{'' then (if repeat_overflow cs then Inl OverflowError else Inl Unmodelled)
      else if c \<in> set ''()[|^$'' then Inl Unmodelled
      else if c = BSL then
        (case cs of
           [] \<Rightarrow> Inl ReError
         | d # ds \<Rightarrow>
             if d = CHR ''0'' then
               Inr (Lit (char_of (oct_val (oct_run ds))), drop (length (oct_run ds)) ds)
             else if is_alnum d then Inl Unmodelled
             else Inr (Lit d, ds))
      else if c = CHR ''.'' then Inr (AnyChar, cs)
      else Inr (Lit c, cs))"

fun re_repeat :: "string \<Rightarrow> py_error + (quant \<times> string)" where
  "re_repeat [] = Inr (One, [])"
| "re_repeat (q # r) =
     (case re_quant q of
        None \<Rightarrow> Inr (One, q # r)
      | Some qq \<Rightarrow>
          (case r of
             [] \<Rightarrow> Inr (qq, [])
           | q2 # r2 \<Rightarrow>
               if q2 = CHR ''*'' then Inl ReError
               else if q2 = CHR ''+'' \<or> q2 = CHR ''?'' then Inl Unmodelled
               else Inr (qq, r)))"

lemma re_atom_shorter: "re_atom s = Inr (a, r) \<Longrightarrow> length r < length s"
  by (cases s) (auto split: if_splits list.splits)

lemma re_repeat_shorter: "re_repeat s = Inr (q, r) \<Longrightarrow> length r \<le> length s"
  by (cases s) (auto split: if_splits list.splits option.splits)

function re_parse :: "string \<Rightarrow> py_error + re_item list" where
  "re_parse s =
     (if s = [] then Inr []
      else
        (case re_atom s of
           Inl e \<Rightarrow> Inl e
         | Inr (a, r1) \<Rightarrow>
             (case re_repeat r1 of
                Inl e \<Rightarrow> Inl e
              | Inr (q, r2) \<Rightarrow>
                  (case re_parse r2 of
                     Inl e \<Rightarrow> Inl e
                   | Inr its \<Rightarrow> Inr ((a, q) # its)))))"
  by pat_completeness auto
termination
proof (relation "measure length")
  show "wf (measure length)" by simp
next
  fix s :: string and x2 x y xa ya
  assume "s \<noteq> []" "re_atom s = Inr x2" "(x, y) = x2" "re_repeat y = Inr xa"
  then have "length y < length s"
    using re_atom_shorter [of s x y] by simp
  then show "(ya, s) \<in> measure length" if "(q, ya) = xa" for q
    using that \<open>re_repeat y = Inr xa\<close> re_repeat_shorter [of y q ya] by simp
qed

declare re_parse.simps [simp del]

fun atom_accepts :: "atom \<Rightarrow> char \<Rightarrow> bool" where
  "atom_accepts (Lit d) c = (c = d)"
| "atom_accepts AnyChar c = (c \<noteq> NL)"

fun re_run :: "re_item list \<Rightarrow> string \<Rightarrow> bool" where
  "re_run [] s = True"
| "re_run ((a, One) # r) [] = False"
| "re_run ((a, One) # r) (c # cs) = (atom_accepts a c \<and> re_run r cs)"
| "re_run ((a, Opt) # r) [] = re_run r []"
| "re_run ((a, Opt) # r) (c # cs) = ((atom_accepts a c \<and> re_run r cs) \<or> re_run r (c # cs))"
| "re_run ((a, Star) # r) [] = re_run r []"
| "re_run ((a, Star) # r) (c # cs) =
     ((atom_accepts a c \<and> re_run ((a, Star) # r) cs) \<or> re_run r (c # cs))"
| "re_run ((a, Plus) # r) [] = False"
| "re_run ((a, Plus) # r) (c # cs) = (atom_accepts a c \<and> re_run ((a, Star) # r) cs)"

definition re_match :: "string \<Rightarrow> string \<Rightarrow> py_error + bool" where
  "re_match pattern s =
     (case re_parse pattern of Inl e \<Rightarrow> Inl e | Inr its \<Rightarrow> Inr (re_run its s))"

text \<open>
  \<open>re.escape\<close> on one character, as Python 2.7 has it: letters and digits stay, the NUL
  character becomes the octal escape, every other character gets a backslash.
\<close>

definition re_escape :: "char \<Rightarrow> string" where
  "re_escape c =
     (if is_alnum c then [c]
      else if c = CHR 0x00 then [BSL, CHR ''0'', CHR ''0'', CHR ''0'']
      else [BSL, c])"

section \<open>The pattern matchers of cram.py\<close>

text \<open>
  The source's \<open>_match\<close> and \<open>_glob\<close> (an Isabelle name cannot begin with an underscore).
  \<open>_match\<close> returns a match object, \<open>None\<close> or \<open>False\<close>; its callers only test the
  truth of the result, which is the boolean here. Its \<open>except\<close> clause names \<open>re.error\<close>
  only: any other exception of \<open>re.match\<close> leaves \<open>_match\<close>.
\<close>

definition p_match :: "string \<Rightarrow> string \<Rightarrow> py_error + bool" where
  "p_match pattern s =
     (case re_match pattern s of
        Inl e \<Rightarrow> (if e = ReError then Inr False else Inl e)
      | Inr m \<Rightarrow> Inr m)"

text \<open>
  The loop of \<open>_glob\<close>: the first argument is what is left of \<open>el\<close> from index \<open>i\<close> on,
  the second is \<open>res\<close>. Reading \<open>el[i]\<close> after a backslash that ends \<open>el\<close> raises
  \<open>IndexError\<close>.
\<close>

fun glob_loop :: "string \<Rightarrow> string \<Rightarrow> py_error + string" where
  "glob_loop [] res = Inr res"
| "glob_loop (c # cs) res =
     (if c = BSL then
        (case cs of
           [] \<Rightarrow> Inl IndexError
         | d # ds \<Rightarrow>
             if d = CHR ''*'' \<or> d = CHR ''?'' \<or> d = BSL then glob_loop ds (res @ [c, d])
             else glob_loop cs (res @ re_escape c))
      else if c = CHR ''*'' then glob_loop cs (res @ ''.*'')
      else if c = CHR ''?'' then glob_loop cs (res @ ''.'')
      else glob_loop cs (res @ re_escape c))"

definition p_glob :: "string \<Rightarrow> string \<Rightarrow> py_error + bool" where
  "p_glob el l = (case glob_loop el [] of Inl e \<Rightarrow> Inl e | Inr res \<Rightarrow> p_match res l)"

text \<open>
  The test of \<open>SequenceMatcher.find_longest_match\<close> on one pair of lines:
  \<open>el.endswith(" (re)\n") and _match(el[:-6] + '\n', line) or
    el.endswith(" (glob)\n") and _glob(el[:-8] + '\n', line)\<close>.
\<close>

definition line_matches :: "string \<Rightarrow> string \<Rightarrow> py_error + bool" where
  "line_matches el line =
     (case (if endswith el '' (re)\<newline>''
            then p_match (take (length el - 6) el @ ''\<newline>'') line
            else Inr False) of
        Inl e \<Rightarrow> Inl e
      | Inr m \<Rightarrow>
          if m then Inr True
          else if endswith el '' (glob)\<newline>''
          then p_glob (take (length el - 8) el @ ''\<newline>'') line
          else Inr False)"


section \<open>Python helpers: split, int, decimal output, slices\<close>

text \<open>
  \<open>str.split()\<close> with no argument splits at runs of whitespace and drops empty fields;
  \<open>int(s)\<close> on a field reads an optional sign and decimal digits and raises
  \<open>ValueError\<close> otherwise; \<open>'%s' % n\<close> and \<open>'%d' % n\<close> print an integer in decimal.
\<close>

definition is_space :: "char \<Rightarrow> bool" where
  "is_space c =
     (c = CHR '' '' \<or> c = CHR 0x09 \<or> c = NL \<or> c = CHR 0x0B \<or> c = CHR 0x0C \<or> c = CHR 0x0D)"

fun split_loop :: "string \<Rightarrow> string \<Rightarrow> string list" where
  "split_loop [] w = (if w = [] then [] else [w])"
| "split_loop (c # cs) w =
     (if is_space c then (if w = [] then split_loop cs [] else w # split_loop cs [])
      else split_loop cs (w @ [c]))"

definition py_split :: "string \<Rightarrow> string list" where
  "py_split s = split_loop s []"

definition digits_val :: "string \<Rightarrow> nat" where
  "digits_val ds = foldl (\<lambda>v d. 10 * v + (of_char d - 48)) 0 ds"

definition py_int :: "string \<Rightarrow> py_error + int" where
  "py_int s =
     (case s of
        [] \<Rightarrow> Inl ValueError
      | c # cs \<Rightarrow>
          if c = CHR ''-'' \<or> c = CHR ''+'' then
            (if cs \<noteq> [] \<and> list_all is_digit cs
             then Inr (if c = CHR ''-'' then - int (digits_val cs) else int (digits_val cs))
             else Inl ValueError)
          else if list_all is_digit s then Inr (int (digits_val s))
          else Inl ValueError)"

fun show_nat :: "nat \<Rightarrow> string" where
  "show_nat n =
     (if n < 10 then [char_of (48 + n)] else show_nat (n div 10) @ [char_of (48 + n mod 10)])"

declare show_nat.simps [simp del]

definition show_int :: "int \<Rightarrow> string" where
  "show_int i = (if i < 0 then CHR ''-'' # show_nat (nat (- i)) else show_nat (nat i))"

definition slice :: "'a list \<Rightarrow> nat \<Rightarrow> nat \<Rightarrow> 'a list" where
  "slice xs lo hi = drop lo (take hi xs)"

section \<open>The library class difflib.SequenceMatcher\<close>

text \<open>
  The parts of CPython's \<open>difflib.SequenceMatcher\<close> that \<open>unified_diff\<close> runs, for
  \<open>isjunk = None\<close> and \<open>autojunk = True\<close> (the defaults the source uses). Indices are
  natural numbers; the matcher is only called with non-negative ones. A read of \<open>a[i]\<close>
  or \<open>b[j]\<close> past the end raises \<open>IndexError\<close>. There is no junk, so the two loops that
  extend a match over junk elements only evaluate their condition.

  \<open>b2j b elt\<close> is \<open>b2j.get(elt, [])\<close> after \<open>__chain_b\<close>: the indices of \<open>elt\<close> in \<open>b\<close> in
  increasing order, or nothing when \<open>b\<close> has 200 elements or more and \<open>elt\<close> is popular
  (more than \<open>len(b) // 100 + 1\<close> occurrences).
\<close>

type_synonym block = "nat \<times> nat \<times> nat"

definition b2j :: "string list \<Rightarrow> string \<Rightarrow> nat list" where
  "b2j b elt =
     (let idxs = filter (\<lambda>j. b ! j = elt) [0..<length b]
      in if 200 \<le> length b \<and> length b div 100 + 1 < length idxs then [] else idxs)"

text \<open>The inner loop \<open>for j in b2j.get(a[i], nothing)\<close> of \<open>find_longest_match\<close>.\<close>

fun flm_row ::
  "nat list \<Rightarrow> nat \<Rightarrow> nat \<Rightarrow> nat \<Rightarrow> (nat \<rightharpoonup> nat) \<Rightarrow> (nat \<rightharpoonup> nat) \<Rightarrow> block
     \<Rightarrow> (nat \<rightharpoonup> nat) \<times> block" where
  "flm_row [] i blo bhi j2len newj2len best = (newj2len, best)"
| "flm_row (j # js) i blo bhi j2len newj2len best =
     (if j < blo then flm_row js i blo bhi j2len newj2len best
      else if bhi \<le> j then (newj2len, best)
      else
        (let k = (if j = 0 then 0 else (case j2len (j - 1) of None \<Rightarrow> 0 | Some v \<Rightarrow> v)) + 1
         in flm_row js i blo bhi j2len (newj2len(j \<mapsto> k))
              (case best of (besti, bestj, bestsize) \<Rightarrow>
                 if bestsize < k then (i + 1 - k, j + 1 - k, k) else best)))"

text \<open>The outer loop \<open>for i in range(alo, ahi)\<close>.\<close>

function flm_rows ::
  "string list \<Rightarrow> string list \<Rightarrow> nat \<Rightarrow> nat \<Rightarrow> nat \<Rightarrow> nat \<Rightarrow> (nat \<rightharpoonup> nat) \<Rightarrow> block
     \<Rightarrow> py_error + block" where
  "flm_rows a b i ahi blo bhi j2len best =
     (if i < ahi then
        (if i < length a then
           (case flm_row (b2j b (a ! i)) i blo bhi j2len Map.empty best of
              (newj2len, best') \<Rightarrow> flm_rows a b (i + 1) ahi blo bhi newj2len best')
         else Inl IndexError)
      else Inr best)"
  by pat_completeness auto
termination
  by (relation "measure (\<lambda>(a, b, i, ahi, blo, bhi, j2len, best). ahi - i)") auto

declare flm_rows.simps [simp del]

text \<open>The two loops that extend the best block over equal elements on both sides.\<close>

function flm_extend_back ::
  "string list \<Rightarrow> string list \<Rightarrow> nat \<Rightarrow> nat \<Rightarrow> block \<Rightarrow> py_error + block" where
  "flm_extend_back a b alo blo (besti, bestj, bestsize) =
     (if alo < besti \<and> blo < bestj then
        (if bestj - 1 < length b then
           (if besti - 1 < length a then
              (if a ! (besti - 1) = b ! (bestj - 1)
               then flm_extend_back a b alo blo (besti - 1, bestj - 1, bestsize + 1)
               else Inr (besti, bestj, bestsize))
            else Inl IndexError)
         else Inl IndexError)
      else Inr (besti, bestj, bestsize))"
  by pat_completeness auto
termination
  by (relation "measure (\<lambda>(a, b, alo, blo, besti, bestj, bestsize). besti)") auto

declare flm_extend_back.simps [simp del]

function flm_extend_fwd ::
  "string list \<Rightarrow> string list \<Rightarrow> nat \<Rightarrow> nat \<Rightarrow> block \<Rightarrow> py_error + block" where
  "flm_extend_fwd a b ahi bhi (besti, bestj, bestsize) =
     (if besti + bestsize < ahi \<and> bestj + bestsize < bhi then
        (if bestj + bestsize < length b then
           (if besti + bestsize < length a then
              (if a ! (besti + bestsize) = b ! (bestj + bestsize)
               then flm_extend_fwd a b ahi bhi (besti, bestj, bestsize + 1)
               else Inr (besti, bestj, bestsize))
            else Inl IndexError)
         else Inl IndexError)
      else Inr (besti, bestj, bestsize))"
  by pat_completeness auto
termination
  by (relation "measure (\<lambda>(a, b, ahi, bhi, besti, bestj, bestsize). ahi - (besti + bestsize))") auto

declare flm_extend_fwd.simps [simp del]

text \<open>
  The two loops over junk: \<open>isbjunk\<close> is false for every element, so each loop stops at
  its first test, after reading the element of \<open>b\<close> that the test names.
\<close>

definition flm_junk_back :: "string list \<Rightarrow> nat \<Rightarrow> nat \<Rightarrow> block \<Rightarrow> py_error + block" where
  "flm_junk_back b alo blo best =
     (case best of (besti, bestj, bestsize) \<Rightarrow>
        if alo < besti \<and> blo < bestj \<and> \<not> bestj - 1 < length b then Inl IndexError
        else Inr best)"

definition flm_junk_fwd :: "string list \<Rightarrow> nat \<Rightarrow> nat \<Rightarrow> block \<Rightarrow> py_error + block" where
  "flm_junk_fwd b ahi bhi best =
     (case best of (besti, bestj, bestsize) \<Rightarrow>
        if besti + bestsize < ahi \<and> bestj + bestsize < bhi \<and> \<not> bestj + bestsize < length b
        then Inl IndexError
        else Inr best)"

definition difflib_find_longest_match ::
  "string list \<Rightarrow> string list \<Rightarrow> nat \<Rightarrow> nat \<Rightarrow> nat \<Rightarrow> nat \<Rightarrow> py_error + block" where
  "difflib_find_longest_match a b alo ahi blo bhi =
     (case flm_rows a b alo ahi blo bhi Map.empty (alo, blo, 0) of
        Inl e \<Rightarrow> Inl e
      | Inr best1 \<Rightarrow>
          (case flm_extend_back a b alo blo best1 of
             Inl e \<Rightarrow> Inl e
           | Inr best2 \<Rightarrow>
               (case flm_extend_fwd a b ahi bhi best2 of
                  Inl e \<Rightarrow> Inl e
                | Inr best3 \<Rightarrow>
                    (case flm_junk_back b alo blo best3 of
                       Inl e \<Rightarrow> Inl e
                     | Inr best4 \<Rightarrow> flm_junk_fwd b ahi bhi best4))))"

section \<open>SequenceMatcher.find_longest_match of cram.py\<close>

text \<open>
  The matcher's list \<open>self.a\<close> is mutable state: the function takes it and returns it
  with the result. \<open>flm_subst\<close> is the loop over \<open>enumerate(zip(self.a[alo:ahi],
  self.b[blo:bhi]))\<close>, with \<open>n\<close> the running index, \<open>a\<close> the current \<open>self.a\<close> and
  \<open>matches\<close> the list it builds. \<open>flm_restore\<close> is the loop that writes the saved lines
  back. An exception leaves the function before the restore; the model then returns the
  exception only.
\<close>

fun flm_subst ::
  "nat \<Rightarrow> (string \<times> string) list \<Rightarrow> nat \<Rightarrow> string list \<Rightarrow> (nat \<times> string) list
     \<Rightarrow> py_error + (string list \<times> (nat \<times> string) list)" where
  "flm_subst alo [] n a matches = Inr (a, matches)"
| "flm_subst alo ((el, line) # ps) n a matches =
     (case line_matches el line of
        Inl e \<Rightarrow> Inl e
      | Inr m \<Rightarrow>
          if m then flm_subst alo ps (n + 1) (a[alo + n := line]) (matches @ [(n, el)])
          else flm_subst alo ps (n + 1) a matches)"

fun flm_restore :: "nat \<Rightarrow> (nat \<times> string) list \<Rightarrow> string list \<Rightarrow> string list" where
  "flm_restore alo [] a = a"
| "flm_restore alo ((n, el) # ms) a = flm_restore alo ms (a[alo + n := el])"

definition find_longest_match ::
  "string list \<Rightarrow> string list \<Rightarrow> nat \<Rightarrow> nat \<Rightarrow> nat \<Rightarrow> nat \<Rightarrow> py_error + (string list \<times> block)" where
  "find_longest_match a b alo ahi blo bhi =
     (case flm_subst alo (zip (slice a alo ahi) (slice b blo bhi)) 0 a [] of
        Inl e \<Rightarrow> Inl e
      | Inr (a1, matches) \<Rightarrow>
          (case difflib_find_longest_match a1 b alo ahi blo bhi of
             Inl e \<Rightarrow> Inl e
           | Inr ret \<Rightarrow> Inr (flm_restore alo matches a1, ret)))"

section \<open>The rest of difflib.SequenceMatcher: matching blocks and opcodes\<close>

text \<open>
  \<open>get_matching_blocks\<close> calls \<open>self.find_longest_match\<close>, which is the method of
  cram.py above. \<open>block_in\<close> and \<open>queue_weight\<close> are not in the library: they carry
  the termination proof of the search.

  Where the best block of \<open>find_longest_match\<close> lies: inside the window of \<open>a\<close>, and at
  its start while it is empty. This is what makes the search of \<open>get_matching_blocks\<close>
  terminate.
\<close>

definition block_in :: "nat \<Rightarrow> nat \<Rightarrow> block \<Rightarrow> bool" where
  "block_in alo ahi best =
     (case best of (besti, bestj, bestsize) \<Rightarrow>
        alo \<le> besti \<and> (if bestsize = 0 then besti = alo else besti + bestsize \<le> ahi))"

lemma flm_row_block_in:
  assumes "flm_row js i blo bhi j2len newj2len best = (n', best')"
    and "alo \<le> i" "i < ahi" "block_in alo ahi best"
    and "\<And>j v. j2len j = Some v \<Longrightarrow> v \<le> i - alo"
    and "\<And>j v. newj2len j = Some v \<Longrightarrow> v \<le> i + 1 - alo"
  shows "block_in alo ahi best' \<and> (\<forall>j v. n' j = Some v \<longrightarrow> v \<le> i + 1 - alo)"
  using assms
proof (induction js arbitrary: newj2len best)
  case Nil
  then show ?case by simp
next
  case (Cons j js)
  show ?case
  proof (cases "j < blo")
    case True
    then show ?thesis using Cons.IH [of newj2len best] Cons.prems by simp
  next
    case nlo: False
    show ?thesis
    proof (cases "bhi \<le> j")
      case True
      then show ?thesis using Cons.prems nlo by simp
    next
      case False
      define k where "k = (if j = 0 then 0 else (case j2len (j - 1) of None \<Rightarrow> 0 | Some v \<Rightarrow> v)) + 1"
      define best1 where "best1 = (case best of (besti, bestj, bestsize) \<Rightarrow>
                 if bestsize < k then (i + 1 - k, j + 1 - k, k) else best)"
      have k: "k \<le> i + 1 - alo" "0 < k"
        using Cons.prems(5) [of "j - 1"] Cons.prems(2) by (auto simp: k_def split: option.splits)
      have b1: "block_in alo ahi best1"
        using k Cons.prems(2,3,4) by (auto simp: best1_def block_in_def split: prod.splits)
      have n1: "\<And>j' v. (newj2len(j \<mapsto> k)) j' = Some v \<Longrightarrow> v \<le> i + 1 - alo"
        using k Cons.prems(6) by (auto split: if_splits)
      have "flm_row js i blo bhi j2len (newj2len(j \<mapsto> k)) best1 = (n', best')"
        using Cons.prems(1) nlo False unfolding k_def best1_def
        by (cases best) (auto simp: Let_def split: if_splits)
      then show ?thesis
        using Cons.IH [of "newj2len(j \<mapsto> k)" best1] Cons.prems(2,3,5) b1 n1 by blast
    qed
  qed
qed

lemma flm_rows_block_in:
  assumes "flm_rows a b i ahi blo bhi j2len best = Inr best'"
    and "alo \<le> i" "block_in alo ahi best"
    and "\<And>j v. j2len j = Some v \<Longrightarrow> v \<le> i - alo"
  shows "block_in alo ahi best'"
  using assms
proof (induction a b i ahi blo bhi j2len best rule: flm_rows.induct)
  case (1 a b i ahi blo bhi j2len best)
  show ?case
  proof (cases "i < ahi")
    case False
    then show ?thesis using "1.prems" by (simp add: flm_rows.simps)
  next
    case True
    then have la: "i < length a"
      using "1.prems"(1) by (auto simp: flm_rows.simps split: if_splits)
    obtain n1 b1 where r: "flm_row (b2j b (a ! i)) i blo bhi j2len Map.empty best = (n1, b1)"
      by (cases "flm_row (b2j b (a ! i)) i blo bhi j2len Map.empty best") auto
    have step: "block_in alo ahi b1 \<and> (\<forall>j v. n1 j = Some v \<longrightarrow> v \<le> i + 1 - alo)"
      using flm_row_block_in [OF r "1.prems"(2) True "1.prems"(3)] "1.prems"(4) by simp
    have "flm_rows a b (i + 1) ahi blo bhi n1 b1 = Inr best'"
      using "1.prems"(1) True la r by (simp add: flm_rows.simps)
    then show ?thesis
      using "1.IH" [OF True la r [symmetric]] step "1.prems"(2) by auto
  qed
qed

lemma flm_extend_back_block_in:
  "flm_extend_back a b alo blo best = Inr best' \<Longrightarrow> block_in alo ahi best
     \<Longrightarrow> block_in alo ahi best'"
proof (induction a b alo blo best rule: flm_extend_back.induct)
  case (1 a b alo blo besti bestj bestsize)
  show ?case
  proof (cases "alo < besti \<and> blo < bestj \<and> bestj - 1 < length b \<and> besti - 1 < length a
                 \<and> a ! (besti - 1) = b ! (bestj - 1)")
    case True
    then have "flm_extend_back a b alo blo (besti - 1, bestj - 1, bestsize + 1) = Inr best'"
      using "1.prems"(1) by (simp add: flm_extend_back.simps)
    moreover have "block_in alo ahi (besti - 1, bestj - 1, bestsize + 1)"
      using "1.prems"(2) True by (auto simp: block_in_def split: if_splits)
    ultimately show ?thesis using "1.IH" True by blast
  next
    case False
    then show ?thesis
      using "1.prems" by (auto simp: flm_extend_back.simps split: if_splits)
  qed
qed

lemma flm_extend_fwd_block_in:
  "flm_extend_fwd a b ahi bhi best = Inr best' \<Longrightarrow> block_in alo ahi best
     \<Longrightarrow> block_in alo ahi best'"
proof (induction a b ahi bhi best rule: flm_extend_fwd.induct)
  case (1 a b ahi bhi besti bestj bestsize)
  show ?case
  proof (cases "besti + bestsize < ahi \<and> bestj + bestsize < bhi \<and> bestj + bestsize < length b
                 \<and> besti + bestsize < length a \<and> a ! (besti + bestsize) = b ! (bestj + bestsize)")
    case True
    then have "flm_extend_fwd a b ahi bhi (besti, bestj, bestsize + 1) = Inr best'"
      using "1.prems"(1) by (simp add: flm_extend_fwd.simps)
    moreover have "block_in alo ahi (besti, bestj, bestsize + 1)"
      using "1.prems"(2) True by (auto simp: block_in_def split: if_splits)
    ultimately show ?thesis using "1.IH" True by blast
  next
    case False
    then show ?thesis
      using "1.prems" by (auto simp: flm_extend_fwd.simps split: if_splits)
  qed
qed

lemma difflib_find_longest_match_block_in:
  assumes "difflib_find_longest_match a b alo ahi blo bhi = Inr best"
  shows "block_in alo ahi best"
proof -
  from assms obtain b1 b2 b3 where
    s: "flm_rows a b alo ahi blo bhi Map.empty (alo, blo, 0) = Inr b1"
       "flm_extend_back a b alo blo b1 = Inr b2"
       "flm_extend_fwd a b ahi bhi b2 = Inr b3"
       "best = b3"
    by (auto simp: difflib_find_longest_match_def flm_junk_back_def flm_junk_fwd_def
          split: sum.splits prod.splits if_splits)
  have "block_in alo ahi b1"
    using flm_rows_block_in [OF s(1), of alo] by (simp add: block_in_def)
  then show ?thesis
    using flm_extend_back_block_in [OF s(2)] flm_extend_fwd_block_in [OF s(3)] s(4) by blast
qed

lemma find_longest_match_block_in:
  "find_longest_match a b alo ahi blo bhi = Inr (a', best) \<Longrightarrow> block_in alo ahi best"
  using difflib_find_longest_match_block_in
  by (auto simp: find_longest_match_def split: sum.splits prod.splits)

text \<open>
  \<open>get_matching_blocks\<close>. The list \<open>queue\<close> is used as a stack: its top is the head of
  the list here, \<open>queue.pop()\<close> takes the head and \<open>queue.append\<close> puts a new head.
\<close>

type_synonym window = "nat \<times> nat \<times> nat \<times> nat"

definition queue_weight :: "window list \<Rightarrow> nat" where
  "queue_weight q = sum_list (map (\<lambda>(alo, ahi, blo, bhi). 2 * (ahi - alo) + 1) q)"

function gmb_loop ::
  "string list \<Rightarrow> string list \<Rightarrow> window list \<Rightarrow> block list
     \<Rightarrow> py_error + (string list \<times> block list)" where
  "gmb_loop a b [] blocks = Inr (a, blocks)"
| "gmb_loop a b ((alo, ahi, blo, bhi) # queue) blocks =
     (case find_longest_match a b alo ahi blo bhi of
        Inl e \<Rightarrow> Inl e
      | Inr (a', i, j, k) \<Rightarrow>
          if k \<noteq> 0 then
            gmb_loop a' b
              ((if i + k < ahi \<and> j + k < bhi then [(i + k, ahi, j + k, bhi)] else [])
               @ (if alo < i \<and> blo < j then [(alo, i, blo, j)] else []) @ queue)
              (blocks @ [(i, j, k)])
          else gmb_loop a' b queue blocks)"
  by pat_completeness auto
termination
proof (relation "measure (\<lambda>(a, b, q, blocks). queue_weight q)")
  show "wf (measure (\<lambda>(a, b, q, blocks). queue_weight q))" by simp
next
  fix a b :: "string list" and alo ahi blo bhi :: nat and queue :: "window list"
    and blocks :: "block list" and x2 :: "string list \<times> block" and x :: "string list"
    and y :: block and xa :: nat and ya :: "nat \<times> nat" and xb ya' :: nat
  assume f: "find_longest_match a b alo ahi blo bhi = Inr x2" "(x, y) = x2" "(xa, ya) = y"
    "(xb, ya') = ya" and k: "ya' \<noteq> 0"
  then have "block_in alo ahi (xa, xb, ya')"
    using find_longest_match_block_in [of a b alo ahi blo bhi x "(xa, xb, ya')"] by auto
  then have "alo \<le> xa" "xa + ya' \<le> ahi"
    using k by (auto simp: block_in_def)
  then show "((x, b, (if xa + ya' < ahi \<and> xb + ya' < bhi then [(xa + ya', ahi, xb + ya', bhi)] else [])
              @ (if alo < xa \<and> blo < xb then [(alo, xa, blo, xb)] else []) @ queue,
              blocks @ [(xa, xb, ya')]),
             a, b, (alo, ahi, blo, bhi) # queue, blocks)
            \<in> measure (\<lambda>(a, b, q, blocks). queue_weight q)"
    using k by (auto simp: queue_weight_def)
next
  fix a b :: "string list" and alo ahi blo bhi :: nat and queue :: "window list"
    and blocks :: "block list" and x2 :: "string list \<times> block" and x :: "string list"
    and y :: block and xa :: nat and ya :: "nat \<times> nat" and xb ya' :: nat
  show "((x, b, queue, blocks), a, b, (alo, ahi, blo, bhi) # queue, blocks)
            \<in> measure (\<lambda>(a, b, q, blocks). queue_weight q)"
    by (simp add: queue_weight_def)
qed

declare gmb_loop.simps [simp del]

text \<open>
  \<open>matching_blocks.sort()\<close> orders the triples lexicographically; the loop after it
  merges adjacent blocks, and the dummy block \<open>(la, lb, 0)\<close> ends the list.
\<close>

fun block_le :: "block \<Rightarrow> block \<Rightarrow> bool" where
  "block_le (i1, j1, k1) (i2, j2, k2) =
     (i1 < i2 \<or> (i1 = i2 \<and> (j1 < j2 \<or> (j1 = j2 \<and> k1 \<le> k2))))"

fun block_insert :: "block \<Rightarrow> block list \<Rightarrow> block list" where
  "block_insert x [] = [x]"
| "block_insert x (y # ys) = (if block_le x y then x # y # ys else y # block_insert x ys)"

definition sort_blocks :: "block list \<Rightarrow> block list" where
  "sort_blocks bs = foldr block_insert bs []"

fun collapse :: "block list \<Rightarrow> block \<Rightarrow> block list \<Rightarrow> block list" where
  "collapse [] (i1, j1, k1) non_adjacent =
     (if k1 \<noteq> 0 then non_adjacent @ [(i1, j1, k1)] else non_adjacent)"
| "collapse ((i2, j2, k2) # bs) (i1, j1, k1) non_adjacent =
     (if i1 + k1 = i2 \<and> j1 + k1 = j2 then collapse bs (i1, j1, k1 + k2) non_adjacent
      else collapse bs (i2, j2, k2)
             (if k1 \<noteq> 0 then non_adjacent @ [(i1, j1, k1)] else non_adjacent))"

definition get_matching_blocks ::
  "string list \<Rightarrow> string list \<Rightarrow> py_error + (string list \<times> block list)" where
  "get_matching_blocks a b =
     (case gmb_loop a b [(0, length a, 0, length b)] [] of
        Inl e \<Rightarrow> Inl e
      | Inr (a', matching_blocks) \<Rightarrow>
          Inr (a', collapse (sort_blocks matching_blocks) (0, 0, 0) [] @ [(length a, length b, 0)]))"

datatype tag = Replace | Delete | Insert | Equal

type_synonym opcode = "tag \<times> nat \<times> nat \<times> nat \<times> nat"

fun opcodes_loop :: "block list \<Rightarrow> nat \<Rightarrow> nat \<Rightarrow> opcode list" where
  "opcodes_loop [] i j = []"
| "opcodes_loop ((ai, bj, sz) # bs) i j =
     (if i < ai \<and> j < bj then [(Replace, i, ai, j, bj)]
      else if i < ai then [(Delete, i, ai, j, bj)]
      else if j < bj then [(Insert, i, ai, j, bj)]
      else [])
     @ (if sz \<noteq> 0 then [(Equal, ai, ai + sz, bj, bj + sz)] else [])
     @ opcodes_loop bs (ai + sz) (bj + sz)"

definition get_opcodes ::
  "string list \<Rightarrow> string list \<Rightarrow> py_error + (string list \<times> opcode list)" where
  "get_opcodes a b =
     (case get_matching_blocks a b of
        Inl e \<Rightarrow> Inl e
      | Inr (a', blocks) \<Rightarrow> Inr (a', opcodes_loop blocks 0 0))"

text \<open>
  \<open>get_grouped_opcodes(n)\<close>: the fix-up of the first and the last opcode, then the loop
  that cuts the opcodes into groups. The generator is run to its end; the result is the
  list of the groups it yields.
\<close>

definition fix_first :: "nat \<Rightarrow> opcode list \<Rightarrow> opcode list" where
  "fix_first n codes =
     (case hd codes of (tag, i1, i2, j1, j2) \<Rightarrow>
        if tag = Equal then codes[0 := (tag, max i1 (i2 - n), i2, max j1 (j2 - n), j2)]
        else codes)"

definition fix_last :: "nat \<Rightarrow> opcode list \<Rightarrow> opcode list" where
  "fix_last n codes =
     (case last codes of (tag, i1, i2, j1, j2) \<Rightarrow>
        if tag = Equal
        then codes[length codes - 1 := (tag, i1, min i2 (i1 + n), j1, min j2 (j1 + n))]
        else codes)"

fun group_loop :: "nat \<Rightarrow> opcode list \<Rightarrow> opcode list \<Rightarrow> opcode list list" where
  "group_loop n [] grp =
     (if grp \<noteq> [] \<and> \<not> (length grp = 1 \<and> fst (hd grp) = Equal) then [grp] else [])"
| "group_loop n ((tag, i1, i2, j1, j2) # codes) grp =
     (if tag = Equal \<and> n + n < i2 - i1 then
        (grp @ [(tag, i1, min i2 (i1 + n), j1, min j2 (j1 + n))])
          # group_loop n codes [(tag, max i1 (i2 - n), i2, max j1 (j2 - n), j2)]
      else group_loop n codes (grp @ [(tag, i1, i2, j1, j2)]))"

definition get_grouped_opcodes ::
  "string list \<Rightarrow> string list \<Rightarrow> nat \<Rightarrow> py_error + (string list \<times> opcode list list)" where
  "get_grouped_opcodes a b n =
     (case get_opcodes a b of
        Inl e \<Rightarrow> Inl e
      | Inr (a', codes0) \<Rightarrow>
          (let codes = (if codes0 = [] then [(Equal, 0, 1, 0, 1)] else codes0)
           in Inr (a', group_loop n (fix_last n (fix_first n codes)) [])))"

section \<open>unified_diff of cram.py\<close>

text \<open>
  The generator run to its end. The lines of \<open>a\<close> are read when a hunk is rendered,
  which is after the matcher has computed all its opcodes; \<open>a'\<close> is the list \<open>a\<close> as the
  matcher left it, and it is returned with the lines of the diff.
\<close>

fun opcode_lines :: "string list \<Rightarrow> string list \<Rightarrow> opcode \<Rightarrow> string list" where
  "opcode_lines a b (tag, i1, i2, j1, j2) =
     (if tag = Equal then map (\<lambda>line. CHR '' '' # line) (slice a i1 i2)
      else
        (if tag = Replace \<or> tag = Delete then map (\<lambda>line. CHR ''-'' # line) (slice a i1 i2)
         else [])
        @ (if tag = Replace \<or> tag = Insert then map (\<lambda>line. CHR ''+'' # line) (slice b j1 j2)
           else []))"

definition hunk_lines :: "string list \<Rightarrow> string list \<Rightarrow> string \<Rightarrow> opcode list \<Rightarrow> string list" where
  "hunk_lines a b lineterm grp =
     (case (hd grp, last grp) of
        ((t1, i1, x1, j1, y1), (t2, x2, i2, y2, j2)) \<Rightarrow>
          (''@@ -'' @ show_nat (i1 + 1) @ '','' @ show_nat (i2 - i1)
             @ '' +'' @ show_nat (j1 + 1) @ '','' @ show_nat (j2 - j1) @ '' @@'' @ lineterm)
          # concat (map (opcode_lines a b) grp))"

definition unified_diff ::
  "string list \<Rightarrow> string list \<Rightarrow> string \<Rightarrow> string \<Rightarrow> string \<Rightarrow> string \<Rightarrow> nat \<Rightarrow> string
     \<Rightarrow> py_error + (string list \<times> string list)" where
  "unified_diff a b fromfile tofile fromfiledate tofiledate n lineterm =
     (case get_grouped_opcodes a b n of
        Inl e \<Rightarrow> Inl e
      | Inr (a', groups) \<Rightarrow>
          Inr (a',
            (if groups = [] then []
             else [''--- '' @ fromfile @ (CHR 0x09 # fromfiledate) @ lineterm,
                   ''+++ '' @ tofile @ (CHR 0x09 # tofiledate) @ lineterm]
                  @ concat (map (hunk_lines a' b lineterm) groups))))"

section \<open>Paths\<close>

text \<open>
  The POSIX versions of \<open>os.path.join\<close> (for two arguments), \<open>os.path.basename\<close>,
  \<open>os.path.normpath\<close> and \<open>os.path.abspath\<close>; the last one reads the current directory
  of the process, which is its first argument here.
\<close>

definition path_join :: "string \<Rightarrow> string \<Rightarrow> string" where
  "path_join a p =
     (if startswith p ''/'' then p
      else if a = [] \<or> endswith a ''/'' then a @ p
      else a @ ''/'' @ p)"

definition basename :: "string \<Rightarrow> string" where
  "basename p = rev (takeWhile (\<lambda>c. c \<noteq> CHR ''/'') (rev p))"

fun split_slash :: "string \<Rightarrow> string \<Rightarrow> string list" where
  "split_slash [] w = [w]"
| "split_slash (c # cs) w = (if c = CHR ''/'' then w # split_slash cs [] else split_slash cs (w @ [c]))"

fun join_slash :: "string list \<Rightarrow> string" where
  "join_slash [] = []"
| "join_slash [c] = c"
| "join_slash (c # cs) = c @ ''/'' @ join_slash cs"

fun normpath_comps :: "nat \<Rightarrow> string list \<Rightarrow> string list \<Rightarrow> string list" where
  "normpath_comps initial_slashes [] new_comps = new_comps"
| "normpath_comps initial_slashes (cmp1 # comps) new_comps =
     (if cmp1 = [] \<or> cmp1 = ''.'' then normpath_comps initial_slashes comps new_comps
      else if cmp1 \<noteq> ''..'' \<or> (initial_slashes = 0 \<and> new_comps = [])
              \<or> (new_comps \<noteq> [] \<and> last new_comps = ''..'')
      then normpath_comps initial_slashes comps (new_comps @ [cmp1])
      else if new_comps \<noteq> [] then normpath_comps initial_slashes comps (butlast new_comps)
      else normpath_comps initial_slashes comps new_comps)"

definition normpath :: "string \<Rightarrow> string" where
  "normpath path =
     (if path = [] then ''.''
      else
        (let initial_slashes =
               (if startswith path ''/'' then
                  (if startswith path ''//'' \<and> \<not> startswith path ''///'' then 2 else 1)
                else 0);
             p = replicate initial_slashes (CHR ''/'')
                 @ join_slash (normpath_comps initial_slashes (split_slash path []) [])
         in if p = [] then ''.'' else p))"

definition path_abspath :: "string \<Rightarrow> string \<Rightarrow> string" where
  "path_abspath getcwd path = normpath (path_join getcwd path)"

section \<open>test of cram.py\<close>

text \<open>
  \<open>test(path)\<close> reads the file, feeds the commands to a shell and rebuilds the transcript
  from what the shell prints. The shell is outside the program: the lines of the file,
  the salt (\<open>'CRAM%s' % time.time()\<close>) and the lines of the shell's output
  (\<open>p.communicate()[0].splitlines(True)\<close>) are arguments of the model, and so is the
  current directory of the process, which \<open>os.path.abspath(path)\<close> reads. What is
  written to the shell is kept in \<open>rs_stdin\<close>.

  The first loop, over the lines of the file.
\<close>

record read_state =
  rs_refout :: "string list"
  rs_after :: "int \<rightharpoonup> string list"
  rs_pos :: int
  rs_prepos :: int
  rs_stdin :: "string list"

definition setdefault_append :: "(int \<rightharpoonup> string list) \<Rightarrow> int \<Rightarrow> string \<Rightarrow> (int \<rightharpoonup> string list)" where
  "setdefault_append m k v = m(k \<mapsto> (case m k of None \<Rightarrow> [] | Some vs \<Rightarrow> vs) @ [v])"

definition sentinel_echo :: "string \<Rightarrow> int \<Rightarrow> string" where
  "sentinel_echo salt i =
     ''echo '' @ [CHR 0x22, NL] @ salt @ '' '' @ show_int i @ '' $?'' @ [CHR 0x22, NL]"

definition test_read_line :: "string \<Rightarrow> int \<Rightarrow> string \<Rightarrow> read_state \<Rightarrow> read_state" where
  "test_read_line salt i line st =
     (let st1 = st\<lparr>rs_refout := rs_refout st @ [line]\<rparr>
      in if startswith line ''  $ '' then
           st1\<lparr>rs_after := setdefault_append (rs_after st1) (rs_pos st1) line,
               rs_prepos := rs_pos st1,
               rs_pos := i,
               rs_stdin := rs_stdin st1 @ [sentinel_echo salt i, drop 4 line]\<rparr>
         else if startswith line ''  > '' then
           st1\<lparr>rs_after := setdefault_append (rs_after st1) (rs_prepos st1) line,
               rs_stdin := rs_stdin st1 @ [drop 4 line]\<rparr>
         else if \<not> startswith line ''  '' then
           st1\<lparr>rs_after := setdefault_append (rs_after st1) (rs_pos st1) line\<rparr>
         else st1)"

fun test_read_loop :: "string \<Rightarrow> int \<Rightarrow> string list \<Rightarrow> read_state \<Rightarrow> int \<times> read_state" where
  "test_read_loop salt i [] st = (i, st)"
| "test_read_loop salt i (line # ls) st =
     test_read_loop salt (i + 1) ls (test_read_line salt (i + 1) line st)"

text \<open>
  The second loop, over the lines of the shell's output. \<open>test_read_loop\<close> above carries
  the index of the last line read (\<open>-1\<close> before the first), as the variable \<open>i\<close> does
  after the \<open>for\<close> statement.
\<close>

record out_state =
  os_postout :: "string list"
  os_after :: "int \<rightharpoonup> string list"
  os_pos :: int
  os_ret :: int

definition py_index :: "string list \<Rightarrow> nat \<Rightarrow> py_error + string" where
  "py_index xs n = (if n < length xs then Inr (xs ! n) else Inl IndexError)"

definition after_pop :: "(int \<rightharpoonup> string list) \<Rightarrow> int \<Rightarrow> string list" where
  "after_pop m k = (case m k of None \<Rightarrow> [] | Some ls \<Rightarrow> ls)"

definition test_out_line :: "string \<Rightarrow> string \<Rightarrow> out_state \<Rightarrow> py_error + out_state" where
  "test_out_line salt line st =
     (if startswith line salt then
        (if os_postout st = [] then Inl IndexError
         else
           (let presalt = last (os_postout st);
                postout1 = butlast (os_postout st);
                postout2 = (if presalt \<noteq> ''  \<newline>'' then postout1 @ [butlast presalt @ ''%\<newline>'']
                            else postout1)
            in case py_index (py_split line) 2 of
                 Inl e \<Rightarrow> Inl e
               | Inr f2 \<Rightarrow>
                   (case py_int f2 of
                      Inl e \<Rightarrow> Inl e
                    | Inr ret \<Rightarrow>
                        (let postout3 = (if ret \<noteq> 0 then postout2 @ [''  ['' @ show_int ret @ '']\<newline>'']
                                         else postout2);
                             postout4 = postout3 @ after_pop (os_after st) (os_pos st);
                             after1 = (os_after st)(os_pos st := None)
                         in case py_index (py_split line) 1 of
                              Inl e \<Rightarrow> Inl e
                            | Inr f1 \<Rightarrow>
                                (case py_int f1 of
                                   Inl e \<Rightarrow> Inl e
                                 | Inr pos1 \<Rightarrow>
                                     Inr \<lparr>os_postout = postout4, os_after = after1,
                                          os_pos = pos1, os_ret = ret\<rparr>)))))
      else Inr (st\<lparr>os_postout := os_postout st @ [''  '' @ line]\<rparr>))"

fun test_out_loop :: "string \<Rightarrow> string list \<Rightarrow> out_state \<Rightarrow> py_error + out_state" where
  "test_out_loop salt [] st = Inr st"
| "test_out_loop salt (line # ls) st =
     (case test_out_line salt line st of
        Inl e \<Rightarrow> Inl e
      | Inr st1 \<Rightarrow> test_out_loop salt ls st1)"

text \<open>
  The first loop run on the file (\<open>test_read\<close>), the list \<open>refout\<close> it builds, all
  that \<open>test\<close> writes to the shell (\<open>test_stdin\<close>, with the last sentinel), the
  transcript \<open>postout\<close> that \<open>test\<close> builds, and \<open>test\<close> itself. The third component
  of the result is the diff, a list of lines; the source returns \<open>[]\<close> when the diff has
  no line and a non-empty iterator otherwise, so the diff is false in Python exactly when
  the list is empty. The first component is the list \<open>refout\<close>, which is the matcher's
  \<open>self.a\<close>.
\<close>

definition test_read :: "string \<Rightarrow> string list \<Rightarrow> int \<times> read_state" where
  "test_read salt flines =
     test_read_loop salt (- 1) flines
       \<lparr>rs_refout = [], rs_after = Map.empty, rs_pos = - 1, rs_prepos = - 1, rs_stdin = []\<rparr>"

definition test_refout :: "string \<Rightarrow> string list \<Rightarrow> string list" where
  "test_refout salt flines = rs_refout (snd (test_read salt flines))"

definition test_stdin :: "string \<Rightarrow> string list \<Rightarrow> string list" where
  "test_stdin salt flines =
     (case test_read salt flines of (i, rs) \<Rightarrow> rs_stdin rs @ [sentinel_echo salt (i + 1)])"

definition test_postout :: "string \<Rightarrow> string list \<Rightarrow> string list \<Rightarrow> py_error + string list" where
  "test_postout salt flines output =
     (case test_read salt flines of
        (i, rs) \<Rightarrow>
          (case test_out_loop salt output
                  \<lparr>os_postout = [], os_after = rs_after rs, os_pos = - 1, os_ret = 0\<rparr> of
             Inl e \<Rightarrow> Inl e
           | Inr os \<Rightarrow> Inr (os_postout os @ after_pop (os_after os) (os_pos os))))"

definition test ::
  "string \<Rightarrow> string \<Rightarrow> string \<Rightarrow> string list \<Rightarrow> string list
     \<Rightarrow> py_error + (string list \<times> string list \<times> string list)" where
  "test getcwd path salt flines output =
     (let abspath = path_abspath getcwd path
      in case test_postout salt flines output of
           Inl e \<Rightarrow> Inl e
         | Inr postout \<Rightarrow>
             (case unified_diff (test_refout salt flines) postout abspath (abspath @ ''.err'')
                     [] [] 3 ''\<newline>'' of
                Inl e \<Rightarrow> Inl e
              | Inr (refout, diff) \<Rightarrow> Inr (refout, postout, diff)))"

section \<open>The file system\<close>

text \<open>
  A directory holds its entries in the order in which \<open>os.listdir\<close> returns them. The
  walk is \<open>os.walk(top)\<close> with its defaults: top-down, each directory before its
  subdirectories, every subdirectory visited.
\<close>

datatype fsnode = File | Dir "(string \<times> fsnode) list"

fun is_dir :: "fsnode \<Rightarrow> bool" where
  "is_dir (Dir es) = True"
| "is_dir File = False"

fun walk :: "string \<Rightarrow> (string \<times> fsnode) list \<Rightarrow> (string \<times> string list \<times> string list) list"
  and walk_dirs :: "string \<Rightarrow> (string \<times> fsnode) list \<Rightarrow> (string \<times> string list \<times> string list) list"
  where
  "walk root entries =
     (root, map fst (filter (\<lambda>e. is_dir (snd e)) entries),
           map fst (filter (\<lambda>e. \<not> is_dir (snd e)) entries))
     # walk_dirs root entries"
| "walk_dirs root [] = []"
| "walk_dirs root ((name, File) # es) = walk_dirs root es"
| "walk_dirs root ((name, Dir sub) # es) = walk (path_join root name) sub @ walk_dirs root es"

section \<open>istest and findtests of cram.py\<close>

definition istest :: "string \<Rightarrow> bool" where
  "istest path = (\<not> startswith path ''.'' \<and> endswith path ''.t'')"

text \<open>
  \<open>fs p\<close> is what the file system has at the path \<open>p\<close> of the command line: nothing, a
  file, or a directory with its tree. The generator is run to its end.
\<close>

definition findtests_dir :: "string \<times> string list \<times> string list \<Rightarrow> string list" where
  "findtests_dir w =
     (case w of (root, dirs, files) \<Rightarrow>
        if startswith (basename root) ''.'' then []
        else map (\<lambda>f. normpath (path_join root f)) (filter istest (sort files)))"

definition findtests :: "(string \<Rightarrow> fsnode option) \<Rightarrow> string list \<Rightarrow> string list" where
  "findtests fs paths =
     concat (map (\<lambda>p.
        (case fs p of
           Some (Dir entries) \<Rightarrow> concat (map findtests_dir (walk p entries))
         | _ \<Rightarrow> if istest (basename p) then [normpath p] else [])) paths)"

section \<open>run of cram.py\<close>

text \<open>
  The source's \<open>_prompt\<close>. The lines still to be read from standard input are an
  argument and a result. At the end of the input \<open>readline\<close> returns the empty string
  for ever; without a default answer the loop then never ends, which is the result
  \<open>None\<close>. What \<open>_prompt\<close> writes to standard output is not recorded.
\<close>

definition is_upper :: "char \<Rightarrow> bool" where
  "is_upper c = (let n = (of_char c :: nat) in 65 \<le> n \<and> n \<le> 90)"

definition lower_char :: "char \<Rightarrow> char" where
  "lower_char c = (if is_upper c then char_of ((of_char c :: nat) + 32) else c)"

definition py_lower :: "string \<Rightarrow> string" where
  "py_lower s = map lower_char s"

definition py_strip :: "string \<Rightarrow> string" where
  "py_strip s = rev (dropWhile is_space (rev (dropWhile is_space s)))"

fun prompt_loop :: "string \<Rightarrow> string list \<Rightarrow> string option \<times> string list" where
  "prompt_loop answers [] =
     (if filter is_upper answers \<noteq> [] then Some [hd (filter is_upper answers)] else None, [])"
| "prompt_loop answers (l # ls) =
     (let answer = py_lower (py_strip l)
      in if answer = [] \<and> filter is_upper answers \<noteq> [] then (Some [hd (filter is_upper answers)], ls)
         else if answer \<noteq> [] \<and> sublist answer (py_lower answers) then (Some answer, ls)
         else prompt_loop answers ls)"

definition p_prompt ::
  "string \<Rightarrow> string \<Rightarrow> string option \<Rightarrow> string list \<Rightarrow> string option \<times> string list" where
  "p_prompt question answers auto stdin =
     (case auto of Some a \<Rightarrow> (Some a, stdin) | None \<Rightarrow> prompt_loop answers stdin)"

text \<open>
  What \<open>run\<close> reads from outside the program is the record \<open>world\<close>: the working
  directory, the file system that \<open>findtests\<close> walks, the size of each file
  (\<open>os.stat(abspath).st_size\<close>, \<open>None\<close> when \<open>os.stat\<close> raises), and, for each file, its
  lines, the salt of its run and the lines the shell prints for it.

  What \<open>run\<close> does is the record \<open>run_state\<close>: the local variables \<open>seen\<close> (a set, kept as
  a list without repetition, in the order of insertion), \<open>skipped\<close> and \<open>failed\<close>, the
  strings yielded so far, the calls of \<open>test\<close> made so far (the path and the absolute
  path passed to \<open>test\<close>, which starts the shell), the directories that exist under
  \<open>basetmp\<close>, the \<open>.err\<close> files written, the files replaced after an accepted prompt,
  and the standard input still unread.
\<close>

record world =
  w_cwd :: string
  w_fs :: "string \<Rightarrow> fsnode option"
  w_size :: "string \<Rightarrow> nat option"
  w_lines :: "string \<Rightarrow> string list"
  w_salt :: "string \<Rightarrow> string"
  w_output :: "string \<Rightarrow> string list"

record run_state =
  seen :: "string list"
  skipped :: nat
  failed :: nat
  out :: "string list"
  executed :: "(string \<times> string) list"
  tmpdirs :: "string list"
  written :: "(string \<times> string list) list"
  merged :: "string list"
  stdin :: "string list"

record options =
  quiet :: bool
  verbose :: bool
  interactive :: bool
  basetmp :: "string option"
  keeptmp :: bool
  answer :: "string option"

definition truthy :: "string option \<Rightarrow> bool" where
  "truthy s = (case s of None \<Rightarrow> False | Some v \<Rightarrow> v \<noteq> [])"

text \<open>
  The part of the loop body that handles a failed test: from \<open>if diff:\<close> to the end of
  the interactive merge.
\<close>

definition run_failed ::
  "options \<Rightarrow> string \<Rightarrow> string \<Rightarrow> string list \<Rightarrow> string list \<Rightarrow> run_state
     \<Rightarrow> py_error + run_state" where
  "run_failed opts path abspath postout diff st =
     (let st1 = st\<lparr>failed := failed st + 1,
                   out := out st @ (if verbose opts then [''failed\<newline>'']
                                    else [''!''] @ (if \<not> quiet opts then [''\<newline>''] else []))\<rparr>;
          errpath = abspath @ ''.err'';
          st2 = st1\<lparr>written := written st1 @ [(errpath, postout)]\<rparr>
      in if quiet opts then Inr st2
         else
           (let st3 = st2\<lparr>out := out st2 @ diff\<rparr>
            in if interactive opts then
                 (case p_prompt ''Accept this change?'' ''yN'' (answer opts) (stdin st3) of
                    (None, rest) \<Rightarrow> Inl Hang
                  | (Some r, rest) \<Rightarrow>
                      if r = ''y'' then
                        Inr (st3\<lparr>stdin := rest, merged := merged st3 @ [abspath],
                                 out := out st3 @ (if verbose opts then [path @ '': merged output\<newline>'']
                                                   else [])\<rparr>)
                      else Inr (st3\<lparr>stdin := rest\<rparr>))
               else Inr st3))"

text \<open>
  The body of the loop \<open>for path in findtests(paths)\<close>. When \<open>test\<close> is called the
  process is in \<open>tmpdir\<close> if \<open>basetmp\<close> is set (\<open>os.chdir(tmpdir)\<close>, a path relative to
  \<open>cwd\<close> when \<open>basetmp\<close> is relative; symbolic links are not modelled) and in \<open>cwd\<close>
  otherwise.
\<close>

definition run_path :: "world \<Rightarrow> options \<Rightarrow> string \<Rightarrow> run_state \<Rightarrow> py_error + run_state" where
  "run_path w opts path st =
     (if path \<in> set (seen st) then Inr st
      else
        (let st1 = st\<lparr>seen := seen st @ [path]\<rparr>;
             abspath = path_join (w_cwd w) path;
             st2 = (if verbose opts then st1\<lparr>out := out st1 @ [path @ '': '']\<rparr> else st1)
         in case w_size w abspath of
              None \<Rightarrow> Inl OSError
            | Some sz \<Rightarrow>
                if sz = 0 then
                  Inr (st2\<lparr>skipped := skipped st2 + 1,
                           out := out st2 @ [if verbose opts then ''empty\<newline>'' else ''s'']\<rparr>)
                else
                  (let tmpdir = (case basetmp opts of
                                   None \<Rightarrow> []
                                 | Some bt \<Rightarrow> path_join bt (basename path))
                   in if truthy (basetmp opts) \<and> tmpdir \<in> set (tmpdirs st2) then Inl OSError
                      else
                        (let st3 = st2\<lparr>executed := executed st2 @ [(path, abspath)]\<rparr>;
                             getcwd = (if truthy (basetmp opts)
                                       then path_abspath (w_cwd w) tmpdir else w_cwd w)
                         in case test getcwd abspath (w_salt w abspath) (w_lines w abspath)
                                   (w_output w abspath) of
                              Inl e \<Rightarrow> Inl e
                            | Inr (refout, postout, diff) \<Rightarrow>
                                (let st4 = (if truthy (basetmp opts) \<and> keeptmp opts
                                            then st3\<lparr>tmpdirs := tmpdirs st3 @ [tmpdir]\<rparr>
                                            else st3)
                                 in if diff \<noteq> [] then run_failed opts path abspath postout diff st4
                                    else Inr (st4\<lparr>out := out st4 @ [if \<not> verbose opts then ''.''
                                                                        else ''passed\<newline>'']\<rparr>))))))"

fun run_loop :: "world \<Rightarrow> options \<Rightarrow> string list \<Rightarrow> run_state \<Rightarrow> py_error + run_state" where
  "run_loop w opts [] st = Inr st"
| "run_loop w opts (path # paths) st =
     (case run_path w opts path st of
        Inl e \<Rightarrow> Inl e
      | Inr st1 \<Rightarrow> run_loop w opts paths st1)"

definition summary :: "run_state \<Rightarrow> string" where
  "summary st =
     ''# Ran '' @ show_nat (length (seen st)) @ '' tests, '' @ show_nat (skipped st)
       @ '' skipped, '' @ show_nat (failed st) @ '' failed.\<newline>''"

definition run ::
  "world \<Rightarrow> string list \<Rightarrow> string list \<Rightarrow> string list \<Rightarrow> options \<Rightarrow> py_error + run_state" where
  "run w dirs0 stdin0 paths opts =
     (case run_loop w opts (findtests (w_fs w) paths)
             \<lparr>seen = [], skipped = 0, failed = 0, out = [], executed = [], tmpdirs = dirs0,
              written = [], merged = [], stdin = stdin0\<rparr> of
        Inl e \<Rightarrow> Inl e
      | Inr st \<Rightarrow>
          Inr (st\<lparr>out := out st @ (if \<not> verbose opts then [''\<newline>''] else []) @ [summary st]\<rparr>))"

section \<open>Notions used to state and prove the properties of the matchers\<close>

text \<open>
  These three definitions are not in the source. \<open>glob_items\<close> is the parsed form of the
  regular expression that the loop of \<open>_glob\<close> builds, \<open>no_lead_repeat\<close> says that a
  pattern does not begin with a repeat character, and \<open>re_run_whole\<close> is \<open>re_run\<close> with
  the one difference that it succeeds only when the subject is used up (a match of the
  whole string).
\<close>

fun glob_items :: "string \<Rightarrow> re_item list" where
  "glob_items [] = []"
| "glob_items (c # cs) =
     (if c = BSL then
        (case cs of
           [] \<Rightarrow> []
         | d # ds \<Rightarrow>
             if d = CHR ''*'' \<or> d = CHR ''?'' \<or> d = BSL then (Lit d, One) # glob_items ds
             else (Lit c, One) # glob_items cs)
      else if c = CHR ''*'' then (AnyChar, Star) # glob_items cs
      else if c = CHR ''?'' then (AnyChar, One) # glob_items cs
      else (Lit c, One) # glob_items cs)"

definition no_lead_repeat :: "string \<Rightarrow> bool" where
  "no_lead_repeat r = (case r of [] \<Rightarrow> True | q # _ \<Rightarrow> re_quant q = None)"

fun re_run_whole :: "re_item list \<Rightarrow> string \<Rightarrow> bool" where
  "re_run_whole [] s = (s = [])"
| "re_run_whole ((a, One) # r) [] = False"
| "re_run_whole ((a, One) # r) (c # cs) = (atom_accepts a c \<and> re_run_whole r cs)"
| "re_run_whole ((a, Opt) # r) [] = re_run_whole r []"
| "re_run_whole ((a, Opt) # r) (c # cs) =
     ((atom_accepts a c \<and> re_run_whole r cs) \<or> re_run_whole r (c # cs))"
| "re_run_whole ((a, Star) # r) [] = re_run_whole r []"
| "re_run_whole ((a, Star) # r) (c # cs) =
     ((atom_accepts a c \<and> re_run_whole ((a, Star) # r) cs) \<or> re_run_whole r (c # cs))"
| "re_run_whole ((a, Plus) # r) [] = False"
| "re_run_whole ((a, Plus) # r) (c # cs) = (atom_accepts a c \<and> re_run_whole ((a, Star) # r) cs)"


text \<open>
  Three more notions, for the matcher. \<open>np xs i\<close> is the number of consecutive elements
  of \<open>xs\<close> that end at index \<open>i\<close> and are not popular (\<open>b2j\<close> knows them);
  \<open>diag_state\<close> is what holds of \<open>j2len\<close> and of the best block when
  \<open>find_longest_match\<close> compares a list with itself and enters row \<open>i\<close>: the best block
  lies on the diagonal. \<open>lines_agree a b\<close> says that the two transcripts have the same
  length and that at every index either the lines are equal and the pattern test
  returns, or the pattern test accepts the pair.
\<close>

fun np :: "string list \<Rightarrow> nat \<Rightarrow> nat" where
  "np xs 0 = (if b2j xs (xs ! 0) = [] then 0 else 1)"
| "np xs (Suc i) = (if b2j xs (xs ! Suc i) = [] then 0 else np xs i + 1)"

definition diag_state :: "string list \<Rightarrow> nat \<Rightarrow> (nat \<rightharpoonup> nat) \<Rightarrow> block \<Rightarrow> bool" where
  "diag_state xs i j2len best =
     ((\<forall>j v. j2len j = Some v \<longrightarrow> 0 < i \<and> v \<le> np xs (i - 1) \<and> v \<le> np xs j) \<and>
      (0 < i \<longrightarrow> (case j2len (i - 1) of None \<Rightarrow> 0 | Some v \<Rightarrow> v) = np xs (i - 1)) \<and>
      (case best of (d, e, s) \<Rightarrow> d = e \<and> (\<forall>r < i. np xs r \<le> s)))"

definition lines_agree :: "string list \<Rightarrow> string list \<Rightarrow> bool" where
  "lines_agree a b =
     (length a = length b \<and>
      (\<forall>i < length a.
         (a ! i = b ! i \<and> (\<exists>m. line_matches (a ! i) (b ! i) = Inr m))
         \<or> line_matches (a ! i) (b ! i) = Inr True))"


section \<open>Properties of the pattern matchers\<close>

lemma glob_loop_acc:
  "glob_loop el (res1 @ res2) =
     (case glob_loop el res2 of Inl e \<Rightarrow> Inl e | Inr r \<Rightarrow> Inr (res1 @ r))"
  by (induction el res2 rule: glob_loop.induct) (auto split: list.splits)

lemma glob_loop_acc0:
  "glob_loop el res =
     (case glob_loop el [] of Inl e \<Rightarrow> Inl e | Inr r \<Rightarrow> Inr (res @ r))"
  using glob_loop_acc [of el res "[]"] by simp


lemma glob_loop_acc_Cons:
  "glob_loop el (x # xs) =
     (case glob_loop el [] of Inl e \<Rightarrow> Inl e | Inr r \<Rightarrow> Inr (x # xs @ r))"
  using glob_loop_acc [of el "x # xs" "[]"] by (auto split: sum.splits)

lemma is_alnum_not_special:
  "is_alnum c \<Longrightarrow> c \<noteq> CHR ''*'' \<and> c \<noteq> CHR ''+'' \<and> c \<noteq> CHR ''?'' \<and> c \<noteq> BSL \<and> c \<noteq> CHR ''.''
     \<and> c \<noteq> CHR ''{'' \<and> c \<notin> set ''()[|^$'' \<and> c \<noteq> CHR 0x00"
  by (auto simp: is_alnum_def)

lemma re_parse_Nil: "re_parse [] = Inr []"
  by (simp add: re_parse.simps)

lemma re_parse_step:
  "re_atom (c # s) = Inr (a, r1) \<Longrightarrow> re_repeat r1 = Inr (q, r2) \<Longrightarrow> re_parse r2 = Inr its
     \<Longrightarrow> re_parse (c # s) = Inr ((a, q) # its)"
  by (subst re_parse.simps) simp

lemma re_repeat_plain: "no_lead_repeat r \<Longrightarrow> re_repeat r = Inr (One, r)"
  by (cases r) (auto simp: no_lead_repeat_def split: if_splits)

lemma re_repeat_star: "no_lead_repeat r \<Longrightarrow> re_repeat (CHR ''*'' # r) = Inr (Star, r)"
  by (cases r) (auto simp: no_lead_repeat_def split: if_splits)

lemma parse_escape:
  assumes "no_lead_repeat r" "re_parse r = Inr its"
  shows "re_parse (re_escape c @ r) = Inr ((Lit c, One) # its)"
proof (cases "is_alnum c")
  case True
  then have "re_atom (c # r) = Inr (Lit c, r)"
    using is_alnum_not_special [of c] by auto
  then show ?thesis
    using True assms by (simp add: re_escape_def re_parse_step re_repeat_plain)
next
  case False
  show ?thesis
  proof (cases "c = CHR 0x00")
    case True
    have "re_atom (BSL # ''000'' @ r) = Inr (Lit c, r)"
      using True by (simp add: oct_run_def is_octdigit_def oct_val_def char_of_eq_iff)
    then show ?thesis
      using True False assms by (simp add: re_escape_def re_parse_step re_repeat_plain)
  next
    case nz: False
    have "c \<noteq> CHR ''0''" using False by (auto simp: is_alnum_def)
    then have "re_atom (BSL # c # r) = Inr (Lit c, r)"
      using False by simp
    then show ?thesis
      using nz False assms by (simp add: re_escape_def re_parse_step re_repeat_plain)
  qed
qed

lemma parse_escaped_special:
  assumes "no_lead_repeat r" "re_parse r = Inr its" "d = CHR ''*'' \<or> d = CHR ''?'' \<or> d = BSL"
  shows "re_parse (BSL # d # r) = Inr ((Lit d, One) # its)"
proof -
  have "re_atom (BSL # d # r) = Inr (Lit d, r)"
    using assms(3) by (auto simp: is_alnum_def)
  then show ?thesis using assms by (simp add: re_parse_step re_repeat_plain)
qed

lemma parse_dotstar:
  assumes "no_lead_repeat r" "re_parse r = Inr its"
  shows "re_parse (CHR ''.'' # CHR ''*'' # r) = Inr ((AnyChar, Star) # its)"
proof -
  have "re_atom (CHR ''.'' # CHR ''*'' # r) = Inr (AnyChar, CHR ''*'' # r)"
    by simp
  then show ?thesis
    by (rule re_parse_step [OF _ re_repeat_star [OF assms(1)] assms(2)])
qed

lemma parse_dot:
  assumes "no_lead_repeat r" "re_parse r = Inr its"
  shows "re_parse (CHR ''.'' # r) = Inr ((AnyChar, One) # its)"
proof -
  have "re_atom (CHR ''.'' # r) = Inr (AnyChar, r)"
    by simp
  then show ?thesis
    by (rule re_parse_step [OF _ re_repeat_plain [OF assms(1)] assms(2)])
qed

lemma no_lead_repeat_escape: "no_lead_repeat (re_escape c @ r)"
  by (auto simp: no_lead_repeat_def re_escape_def is_alnum_def)

lemma glob_loop_parse:
  "glob_loop el [] = Inr r \<Longrightarrow> re_parse r = Inr (glob_items el) \<and> no_lead_repeat r"
proof (induction el arbitrary: r rule: glob_items.induct)
  case 1
  then show ?case by (simp add: re_parse_Nil no_lead_repeat_def)
next
  case (2 c cs)
  show ?case
  proof (cases "c = BSL")
    case True
    show ?thesis
    proof (cases cs)
      case Nil
      then show ?thesis using "2.prems" True by simp
    next
      case (Cons d ds)
      show ?thesis
      proof (cases "d = CHR ''*'' \<or> d = CHR ''?'' \<or> d = BSL")
        case sp: True
        from "2.prems" True Cons sp obtain r' where r': "glob_loop ds [] = Inr r'" "r = BSL # d # r'"
          by (auto simp: glob_loop_acc_Cons split: sum.splits)
        from "2.IH"(1) [OF True Cons sp r'(1)] show ?thesis
          using r' True Cons sp parse_escaped_special [of r' "glob_items ds" d]
          by (auto simp: no_lead_repeat_def)
      next
        case nsp: False
        from "2.prems" True Cons nsp obtain r' where r': "glob_loop cs [] = Inr r'" "r = re_escape c @ r'"
          using glob_loop_acc0 [of cs "re_escape c"] by (auto split: sum.splits)
        from "2.IH"(2) [OF True Cons nsp r'(1)] show ?thesis
          using r' True Cons nsp parse_escape [of r' "glob_items cs" c] no_lead_repeat_escape [of c r']
          by auto
      qed
    qed
  next
    case nb: False
    show ?thesis
    proof (cases "c = CHR ''*''")
      case True
      from "2.prems" nb True obtain r' where r': "glob_loop cs [] = Inr r'" "r = ''.*'' @ r'"
        by (auto simp: glob_loop_acc_Cons split: sum.splits)
      from "2.IH"(3) [OF nb True r'(1)] show ?thesis
        using r' nb True parse_dotstar [of r' "glob_items cs"] by (auto simp: no_lead_repeat_def)
    next
      case ns: False
      show ?thesis
      proof (cases "c = CHR ''?''")
        case True
        from "2.prems" nb ns True obtain r' where r': "glob_loop cs [] = Inr r'" "r = ''.'' @ r'"
          by (auto simp: glob_loop_acc_Cons split: sum.splits)
        from "2.IH"(4) [OF nb ns True r'(1)] show ?thesis
          using r' nb ns True parse_dot [of r' "glob_items cs"] by (auto simp: no_lead_repeat_def)
      next
        case nq: False
        from "2.prems" nb ns nq obtain r' where r': "glob_loop cs [] = Inr r'" "r = re_escape c @ r'"
          using glob_loop_acc0 [of cs "re_escape c"] by (auto split: sum.splits)
        from "2.IH"(5) [OF nb ns nq r'(1)] show ?thesis
          using r' nb ns nq parse_escape [of r' "glob_items cs" c] no_lead_repeat_escape [of c r']
          by auto
      qed
    qed
  qed
qed


lemma glob_items_plain:
  "CHR ''*'' \<notin> set s \<Longrightarrow> CHR ''?'' \<notin> set s \<Longrightarrow> BSL \<notin> set s
     \<Longrightarrow> glob_items s = map (\<lambda>c. (Lit c, One)) s"
  by (induction s) auto

lemma glob_items_plain_bsl_nl:
  "CHR ''*'' \<notin> set s \<Longrightarrow> CHR ''?'' \<notin> set s \<Longrightarrow> BSL \<notin> set s
     \<Longrightarrow> glob_items (s @ [BSL, NL]) = map (\<lambda>c. (Lit c, One)) (s @ [BSL, NL])"
  by (induction s) auto

lemma glob_loop_total:
  "el = [] \<or> last el \<noteq> BSL \<Longrightarrow> \<exists>r. glob_loop el res = Inr r"
proof (induction el res rule: glob_loop.induct)
  case (1 res)
  then show ?case by simp
next
  case (2 c cs res)
  show ?case
  proof (cases cs)
    case Nil
    then show ?thesis using "2.prems" by simp
  next
    case (Cons d ds)
    then have l: "cs = [] \<or> last cs \<noteq> BSL" using "2.prems" by simp
    show ?thesis
    proof (cases "c = BSL \<and> (d = CHR ''*'' \<or> d = CHR ''?'' \<or> d = BSL)")
      case True
      then have "ds = [] \<or> last ds \<noteq> BSL"
        using "2.prems" Cons by (cases ds) auto
      then show ?thesis using "2.IH"(1) [of d ds] True Cons by simp
    next
      case False
      then show ?thesis using "2.IH"(2-5) l Cons by auto
    qed
  qed
qed

lemma re_run_lits: "re_run (map (\<lambda>c. (Lit c, One)) s) l = prefix s l"
proof (induction s arbitrary: l)
  case Nil
  then show ?case by simp
next
  case (Cons c s)
  then show ?case by (cases l) auto
qed

lemma p_glob_items:
  assumes "glob_loop el [] = Inr r"
  shows "p_glob el l = Inr (re_run (glob_items el) l)"
  using assms glob_loop_parse [OF assms]
  by (simp add: p_glob_def p_match_def re_match_def)

lemma prefix_lines: "NL \<notin> set u \<Longrightarrow> prefix (s @ [NL]) (u @ [NL]) = (u = s)"
proof
  assume a: "NL \<notin> set u" "prefix (s @ [NL]) (u @ [NL])"
  then obtain z where z: "u @ [NL] = s @ [NL] @ z" by (auto simp: prefix_def)
  show "u = s"
  proof (cases z rule: rev_cases)
    case Nil
    then show ?thesis using z by simp
  next
    case (snoc ys y)
    then have "u = s @ [NL] @ ys" using z by simp
    then show ?thesis using a(1) by simp
  qed
qed simp

lemma re_parse_errors:
  "re_parse s = Inl e \<Longrightarrow> e = ReError \<or> e = OverflowError \<or> e = Unmodelled"
proof (induction s rule: re_parse.induct)
  case (1 s)
  show ?case
  proof (cases "s = []")
    case True
    then show ?thesis using "1.prems" by (simp add: re_parse.simps)
  next
    case False
    then obtain c cs where s: "s = c # cs" by (cases s) auto
    have atom: "re_atom s = Inl e' \<Longrightarrow> e' = ReError \<or> e' = OverflowError \<or> e' = Unmodelled" for e'
      unfolding s by (auto split: if_splits list.splits)
    have rep: "re_repeat r = Inl e' \<Longrightarrow> e' = ReError \<or> e' = OverflowError \<or> e' = Unmodelled"
      for e' r
      by (cases r) (auto split: if_splits list.splits option.splits)
    show ?thesis
      using "1.prems" "1.IH" False atom rep
      by (subst (asm) re_parse.simps) (auto split: sum.splits prod.splits)
  qed
qed

lemma p_match_errors: "p_match pattern s = Inl e \<Longrightarrow> e = OverflowError \<or> e = Unmodelled"
  using re_parse_errors [of pattern]
  by (auto simp: p_match_def re_match_def split: sum.splits if_splits)

lemma p_glob_newline_total: "\<exists>m. p_glob (p @ ''\<newline>'') l = Inr m"
proof -
  obtain r where "glob_loop (p @ ''\<newline>'') [] = Inr r"
    using glob_loop_total [of "p @ ''\<newline>''" "[]"] by auto
  then show ?thesis using p_glob_items by blast
qed

lemma line_matches_re: "line_matches (p @ '' (re)\<newline>'') L = p_match (p @ ''\<newline>'') L"
proof -
  have "\<not> endswith (p @ '' (re)\<newline>'') '' (glob)\<newline>''"
  proof
    assume "endswith (p @ '' (re)\<newline>'') '' (glob)\<newline>''"
    then have h: "2 \<le> length p" "drop (length p - 2) (p @ '' (re)\<newline>'') = '' (glob)\<newline>''"
      by (auto simp: endswith_def)
    have "drop 2 (drop (length p - 2) (p @ '' (re)\<newline>'')) = '' (re)\<newline>''"
      using h(1) by simp
    then show False unfolding h(2) by simp
  qed
  then show ?thesis
    by (cases "p_match (p @ ''\<newline>'') L") (simp_all add: line_matches_def endswith_def)
qed

lemma line_matches_glob: "line_matches (p @ '' (glob)\<newline>'') L = p_glob (p @ ''\<newline>'') L"
  by (simp add: line_matches_def endswith_def)

lemma line_matches_errors:
  "line_matches el line = Inl e \<Longrightarrow> e = OverflowError \<or> e = Unmodelled"
proof -
  assume a: "line_matches el line = Inl e"
  obtain m where m: "p_glob (take (length el - 8) el @ ''\<newline>'') line = Inr m"
    using p_glob_newline_total by blast
  show ?thesis
    using a m p_match_errors [of "take (length el - 6) el @ ''\<newline>''" line]
    by (auto simp: line_matches_def split: sum.splits if_splits)
qed

lemma oct_run_snoc: "oct_run (ds @ [NL]) = oct_run ds"
proof (cases ds)
  case Nil
  then show ?thesis by (simp add: oct_run_def is_octdigit_def)
next
  case (Cons x xs)
  then show ?thesis by (cases xs) (simp_all add: oct_run_def is_octdigit_def)
qed

lemma oct_run_length: "length (oct_run ds) \<le> length ds"
  unfolding oct_run_def
  by (rule order_trans [OF length_takeWhile_le]) simp

lemma re_atom_snoc: "re_atom s = Inr (a, r) \<Longrightarrow> re_atom (s @ [NL]) = Inr (a, r @ [NL])"
  by (cases s) (auto simp: oct_run_snoc oct_run_length split: if_splits list.splits)

lemma re_repeat_snoc: "re_repeat r = Inr (q, r') \<Longrightarrow> re_repeat (r @ [NL]) = Inr (q, r' @ [NL])"
  by (cases r) (auto split: if_splits list.splits option.splits)

lemma re_parse_snoc:
  "re_parse s = Inr its \<Longrightarrow> re_parse (s @ [NL]) = Inr (its @ [(Lit NL, One)])"
proof (induction s arbitrary: its rule: re_parse.induct)
  case (1 s)
  show ?case
  proof (cases s)
    case Nil
    have "re_parse [NL] = Inr [(Lit NL, One)]"
      by (simp add: re_parse.simps)
    then show ?thesis using "1.prems" Nil by (simp add: re_parse_Nil)
  next
    case (Cons c cs)
    from "1.prems" obtain a r1 q r2 its' where
      p: "re_atom s = Inr (a, r1)" "re_repeat r1 = Inr (q, r2)" "re_parse r2 = Inr its'"
         "its = (a, q) # its'"
      unfolding Cons
      by (subst (asm) re_parse.simps) (auto split: sum.splits prod.splits)
    have "re_parse (r2 @ [NL]) = Inr (its' @ [(Lit NL, One)])"
      using "1.IH" [of "(a, r1)" a r1 "(q, r2)" q r2 its'] p Cons by simp
    then have "re_parse (c # (cs @ [NL])) = Inr ((a, q) # its' @ [(Lit NL, One)])"
      using re_parse_step [of c "cs @ [NL]" a "r1 @ [NL]" q "r2 @ [NL]"]
        re_atom_snoc [OF p(1)] re_repeat_snoc [OF p(2)] Cons by simp
    then show ?thesis using p(4) Cons by simp
  qed
qed

lemma re_run_newline_Nil: "\<not> re_run (its @ [(Lit NL, One)]) []"
proof (induction its)
  case Nil
  then show ?case by simp
next
  case (Cons it its)
  then show ?case by (cases it; cases "snd it") auto
qed

lemma re_run_newline_whole:
  "NL \<notin> set s \<Longrightarrow> re_run (its @ [(Lit NL, One)]) (s @ [NL]) = re_run_whole its s"
proof (induction its s rule: re_run_whole.induct)
  case (1 s)
  then show ?case by (cases s) auto
next
  case (6 a r)
  then show ?case using re_run_newline_Nil [of "(a, Star) # r"] by simp
qed (use re_run_newline_Nil in auto)


text \<open>
  C1 (amended). For every expected line \<open>E\<close> that ends in the tag \<open> (re)\<close> before its
  newline and every actual line \<open>L\<close>, the matcher treats \<open>E\<close> as equal to \<open>L\<close> if and only
  if the regular expression made of the prefix of \<open>E\<close> followed by a newline matches at
  the start of \<open>L\<close>. For a prefix in the modelled fragment and a line \<open>L\<close> whose only
  newline is its last character, this is a match of the prefix against the whole of the
  line, not only against a beginning of it.
\<close>

theorem re_tag_matches_whole_line:
  "line_matches (p @ '' (re)\<newline>'') L = p_match (p @ ''\<newline>'') L \<and>
   (re_parse p = Inr its \<longrightarrow> NL \<notin> set body \<longrightarrow>
      line_matches (p @ '' (re)\<newline>'') (body @ ''\<newline>'') = Inr (re_run_whole its body))"
  using re_parse_snoc [of p its] re_run_newline_whole [of body its]
  by (auto simp: line_matches_re p_match_def re_match_def)


text \<open>The theorem at the pattern \<open>fo.*\<close> and the line \<open>foobar\<close>.\<close>

theorem re_tag_matches_whole_line_witness:
  "re_parse ''fo.*'' = Inr [(Lit (CHR ''f''), One), (Lit (CHR ''o''), One), (AnyChar, Star)]
   \<and> NL \<notin> set ''foobar''
   \<and> line_matches ''fo.* (re)\<newline>'' ''foobar\<newline>'' = Inr True"
proof -
  have p: "re_parse ''fo.*'' = Inr [(Lit (CHR ''f''), One), (Lit (CHR ''o''), One), (AnyChar, Star)]"
    by code_simp
  have "line_matches (''fo.*'' @ '' (re)\<newline>'') (''foobar'' @ ''\<newline>'')
          = Inr (re_run_whole [(Lit (CHR ''f''), One), (Lit (CHR ''o''), One), (AnyChar, Star)] ''foobar'')"
    using re_tag_matches_whole_line [of "''fo.*''" "''foobar\<newline>''"
        "[(Lit (CHR ''f''), One), (Lit (CHR ''o''), One), (AnyChar, Star)]" "''foobar''"] p
    by auto
  then show ?thesis
    using p by simp
qed

text \<open>
  C1 as stated (a match of the prefix at the start of \<open>L\<close> is enough) fails at
  \<open>E = foo (re)\<close>, \<open>L = foobar\<close>: the prefix \<open>foo\<close> matches at the start of \<open>L\<close>, and the
  lines are not treated as equal.
\<close>

theorem re_tag_starts_with_counterexample:
  "\<not> (\<forall>p L. (line_matches (p @ '' (re)\<newline>'') L = Inr True) = (re_match p L = Inr True))"
proof
  assume a: "\<forall>p L. (line_matches (p @ '' (re)\<newline>'') L = Inr True) = (re_match p L = Inr True)"
  have "line_matches ''foo (re)\<newline>'' ''foobar\<newline>'' = Inr False" by code_simp
  moreover have "re_match ''foo'' ''foobar\<newline>'' = Inr True" by code_simp
  ultimately show False using a [rule_format, of "''foo''" "''foobar\<newline>''"] by simp
qed

text \<open>
  What the two matchers achieve for a bad pattern. A regular expression that \<open>re.match\<close>
  rejects with \<open>re.error\<close> does not match; the pattern test of a line with the tag
  \<open> (glob)\<close> always returns, because the newline that the caller appends follows the
  last backslash; and a glob that ends in a lone backslash is not malformed for the code:
  the backslash is taken literally.
\<close>

lemma re_error_does_not_match:
  "re_match (p @ ''\<newline>'') line = Inl ReError \<Longrightarrow> line_matches (p @ '' (re)\<newline>'') line = Inr False"
  by (simp add: line_matches_re p_match_def)

lemma glob_tag_returns: "\<exists>m. line_matches (p @ '' (glob)\<newline>'') line = Inr m"
  using p_glob_newline_total [of p line] by (simp add: line_matches_glob)

lemma lone_backslash_glob:
  assumes q: "CHR ''*'' \<notin> set q" "CHR ''?'' \<notin> set q" "BSL \<notin> set q"
  shows "line_matches (q @ [BSL] @ '' (glob)\<newline>'') line = Inr (prefix (q @ [BSL] @ ''\<newline>'') line)"
proof -
  obtain r where r: "glob_loop (q @ [BSL, NL]) [] = Inr r"
    using glob_loop_total [of "q @ [BSL, NL]" "[]"] by auto
  have "p_glob (q @ [BSL, NL]) line = Inr (prefix (q @ [BSL, NL]) line)"
    using p_glob_items [OF r, of line] glob_items_plain_bsl_nl [OF q]
    by (simp only: re_run_lits)
  then show ?thesis
    using line_matches_glob [of "q @ [BSL]" line] by simp
qed

lemma invalid_regex_example:
  "re_match ''a**\<newline>'' ''a\<newline>'' = Inl ReError \<and> line_matches ''a** (re)\<newline>'' ''a\<newline>'' = Inr False"
  by code_simp

lemma lone_backslash_glob_example:
  "line_matches (''a'' @ [BSL] @ '' (glob)\<newline>'') (''a'' @ [BSL] @ ''\<newline>'') = Inr True"
  by code_simp

text \<open>
  C4. The property: for an expected line with the tag \<open> (re)\<close> or \<open> (glob)\<close> whose pattern
  is malformed, evaluating the pattern against any actual line yields "does not match"
  and never raises, so that one bad pattern gives at most a diff for its test and never
  aborts the run. The code does not have this property. \<open>_match\<close> catches \<open>re.error\<close>
  only, and the expected line \<open>a{99999999999} (re)\<close> makes \<open>re.match\<close> raise
  \<open>OverflowError\<close>: the pattern test raises, \<open>test\<close> raises for a file with this line,
  and \<open>run\<close> stops with the exception at that file, without running the next file and
  without the summary line.
\<close>

theorem overflow_pattern_aborts_run:
  "line_matches ''  a{99999999999} (re)\<newline>'' ''  a\<newline>'' = Inl OverflowError \<and>
   test ''/w'' ''/w/a.t'' ''CRAM1'' [''  $ echo a\<newline>'', ''  a{99999999999} (re)\<newline>'']
     [''\<newline>'', ''CRAM1 0 0\<newline>'', ''a\<newline>'', ''\<newline>'', ''CRAM1 2 0\<newline>'']
   = Inl OverflowError \<and>
   run \<lparr>w_cwd = ''/w'', w_fs = (\<lambda>p. None), w_size = (\<lambda>p. Some 9),
        w_lines = (\<lambda>p. if p = ''/w/a.t'' then [''  $ echo a\<newline>'', ''  a{99999999999} (re)\<newline>'']
                        else [''  $ true\<newline>'']),
        w_salt = (\<lambda>p. ''CRAM1''),
        w_output = (\<lambda>p. if p = ''/w/a.t''
                         then [''\<newline>'', ''CRAM1 0 0\<newline>'', ''a\<newline>'', ''\<newline>'', ''CRAM1 2 0\<newline>'']
                         else [''\<newline>'', ''CRAM1 0 0\<newline>'', ''\<newline>'', ''CRAM1 1 0\<newline>''])\<rparr>
     [] [] [''a.t'', ''b.t'']
     \<lparr>quiet = False, verbose = False, interactive = False, basetmp = None, keeptmp = False,
      answer = None\<rparr>
   = Inl OverflowError"
  by code_simp

text \<open>
  C7 (amended). For every string \<open>s\<close> with none of the characters \<open>*\<close>, \<open>?\<close> and
  backslash, \<open>_glob(s, l)\<close> succeeds if and only if \<open>l\<close> starts with \<open>s\<close>. When both
  are lines that end in their only newline, as at the one call site of \<open>_glob\<close>, this is
  the case if and only if the two lines are equal.
\<close>

theorem p_glob_literal:
  assumes "CHR ''*'' \<notin> set s" "CHR ''?'' \<notin> set s" "BSL \<notin> set s"
  shows "p_glob s l = Inr (prefix s l) \<and>
         (NL \<notin> set u \<longrightarrow> p_glob (s @ ''\<newline>'') (u @ ''\<newline>'') = Inr (u = s))"
proof -
  have gen: "p_glob t l' = Inr (prefix t l')"
    if "CHR ''*'' \<notin> set t" "CHR ''?'' \<notin> set t" "BSL \<notin> set t" for t l'
  proof -
    have "t = [] \<or> last t \<noteq> BSL" using that(3) by (cases t rule: rev_cases) auto
    then obtain r where "glob_loop t [] = Inr r" using glob_loop_total [of t "[]"] by blast
    then show ?thesis
      using p_glob_items [of t r l'] glob_items_plain [OF that] by (simp add: re_run_lits)
  qed
  have "p_glob (s @ ''\<newline>'') (u @ ''\<newline>'') = Inr (prefix (s @ ''\<newline>'') (u @ ''\<newline>''))"
    using gen [of "s @ ''\<newline>''"] assms by simp
  then show ?thesis using gen [OF assms] prefix_lines [of u s] by simp
qed

text \<open>The theorem at \<open>s = foo\<close>: the pattern matches the longer line \<open>foobar\<close>.\<close>

theorem p_glob_literal_witness:
  "p_glob ''foo'' ''foobar'' = Inr True \<and> p_glob ''foo\<newline>'' ''foobar\<newline>'' = Inr False
   \<and> p_glob ''foo\<newline>'' ''foo\<newline>'' = Inr True"
  using p_glob_literal [of "''foo''" "''foobar''" "''foobar''"]
    p_glob_literal [of "''foo''" "''foobar''" "''foo''"] by simp

text \<open>
  C7 as stated (the pattern matches itself and no other line) fails at \<open>s = foo\<close>,
  \<open>l = foobar\<close>.
\<close>

theorem p_glob_literal_counterexample:
  "\<not> (\<forall>s l. CHR ''*'' \<notin> set s \<and> CHR ''?'' \<notin> set s \<and> BSL \<notin> set s
        \<longrightarrow> ((p_glob s l = Inr True) = (l = s)))"
proof
  assume a: "\<forall>s l. CHR ''*'' \<notin> set s \<and> CHR ''?'' \<notin> set s \<and> BSL \<notin> set s
        \<longrightarrow> ((p_glob s l = Inr True) = (l = s))"
  have "p_glob ''foo'' ''foobar'' = Inr True" by code_simp
  moreover have "(p_glob ''foo'' ''foobar'' = Inr True) = (''foobar'' = ''foo'')"
    using a [rule_format, of "''foo''" "''foobar''"] by simp
  ultimately show False by simp
qed




section \<open>The expected lines are restored\<close>

lemma flm_restore_append:
  "flm_restore alo (ms @ ms2) c = flm_restore alo ms2 (flm_restore alo ms c)"
  by (induction ms arbitrary: c) auto

lemma flm_restore_update:
  "\<forall>x \<in> set ms. fst x \<noteq> n
     \<Longrightarrow> flm_restore alo ms (c[alo + n := v]) = (flm_restore alo ms c)[alo + n := v]"
proof (induction ms arbitrary: c)
  case Nil
  then show ?case by simp
next
  case (Cons m ms)
  obtain n' el where m: "m = (n', el)" by (cases m)
  have "n' \<noteq> n" using Cons.prems m by auto
  then have "c[alo + n := v, alo + n' := el] = c[alo + n' := el, alo + n := v]"
    by (simp add: list_update_swap)
  then show ?case using Cons m by simp
qed

lemma flm_subst_restore:
  assumes "flm_subst alo ps n cur ms = Inr (a1, ms1)"
    and "flm_restore alo ms cur = orig"
    and "\<forall>x \<in> set ms. fst x < n"
    and "\<forall>m < length ps. fst (ps ! m) = orig ! (alo + n + m)"
  shows "flm_restore alo ms1 a1 = orig"
  using assms
proof (induction ps arbitrary: n cur ms)
  case Nil
  then show ?case by simp
next
  case (Cons p ps)
  obtain el line where p: "p = (el, line)" by (cases p)
  have el: "el = orig ! (alo + n)"
    using Cons.prems(4) p by force
  have rest: "\<forall>m < length ps. fst (ps ! m) = orig ! (alo + (n + 1) + m)"
    using Cons.prems(4) by force
  from Cons.prems(1) p obtain mt where mt: "line_matches el line = Inr mt"
    by (auto split: sum.splits)
  show ?case
  proof (cases mt)
    case True
    have ne: "\<forall>x \<in> set ms. fst x \<noteq> n" using Cons.prems(3) by auto
    have "flm_restore alo (ms @ [(n, el)]) (cur[alo + n := line]) = orig"
      using flm_restore_update [OF ne, of alo cur line] Cons.prems(2) el
      by (simp add: flm_restore_append)
    moreover have "\<forall>x \<in> set (ms @ [(n, el)]). fst x < n + 1"
      using Cons.prems(3) by auto
    moreover have "flm_subst alo ps (n + 1) (cur[alo + n := line]) (ms @ [(n, el)]) = Inr (a1, ms1)"
      using Cons.prems(1) p mt True by simp
    ultimately show ?thesis using Cons.IH rest by blast
  next
    case False
    have "flm_subst alo ps (n + 1) cur ms = Inr (a1, ms1)"
      using Cons.prems(1) p mt False by simp
    moreover have "\<forall>x \<in> set ms. fst x < n + 1"
      using Cons.prems(3) by auto
    ultimately show ?thesis using Cons.IH Cons.prems(2) rest by blast
  qed
qed

lemma zip_slice_fst:
  "m < length (zip (slice a alo ahi) (slice b blo bhi))
     \<Longrightarrow> fst (zip (slice a alo ahi) (slice b blo bhi) ! m) = a ! (alo + m)"
proof -
  assume m: "m < length (zip (slice a alo ahi) (slice b blo bhi))"
  then have "m < length (drop alo (take ahi a))" by (simp add: slice_def)
  then have "alo + m < length (take ahi a)" by (simp add: min_def split: if_splits)
  then have "alo + m < ahi" "alo \<le> length (take ahi a)" by (simp_all add: min_def split: if_splits)
  then have "drop alo (take ahi a) ! m = a ! (alo + m)"
    by (simp del: length_take)
  then show ?thesis using m by (simp add: slice_def)
qed

lemma find_longest_match_frame:
  assumes "find_longest_match a b alo ahi blo bhi = Inr (a', ret)"
  shows "a' = a"
proof -
  from assms obtain a1 ms where
    s: "flm_subst alo (zip (slice a alo ahi) (slice b blo bhi)) 0 a [] = Inr (a1, ms)"
    and a': "a' = flm_restore alo ms a1"
    by (auto simp: find_longest_match_def split: sum.splits prod.splits)
  show ?thesis
    unfolding a'
    by (rule flm_subst_restore [OF s]) (simp_all add: zip_slice_fst del: length_zip)
qed

lemma gmb_loop_frame:
  "gmb_loop a b queue blocks = Inr (a', blocks') \<Longrightarrow> a' = a"
proof (induction a b queue blocks rule: gmb_loop.induct)
  case (1 a b blocks)
  then show ?case by (simp add: gmb_loop.simps)
next
  case (2 a b alo ahi blo bhi queue blocks)
  from "2.prems" obtain a1 i j k where
    f: "find_longest_match a b alo ahi blo bhi = Inr (a1, i, j, k)"
    by (auto simp: gmb_loop.simps split: sum.splits prod.splits)
  have a1: "a1 = a" using find_longest_match_frame [OF f] .
  show ?case
  proof (cases "k = 0")
    case True
    then show ?thesis
      using "2.IH"(2) [OF f refl refl refl] "2.prems" f a1 by (simp add: gmb_loop.simps)
  next
    case False
    then show ?thesis
      using "2.IH"(1) [OF f refl refl refl] "2.prems" f a1 by (simp add: gmb_loop.simps)
  qed
qed


lemma get_matching_blocks_frame:
  "get_matching_blocks a b = Inr (a', blocks) \<Longrightarrow> a' = a"
proof -
  assume g: "get_matching_blocks a b = Inr (a', blocks)"
  then obtain bl where "gmb_loop a b [(0, length a, 0, length b)] [] = Inr (a', bl)"
    unfolding get_matching_blocks_def
    by (cases "gmb_loop a b [(0, length a, 0, length b)] []") auto
  then show "a' = a" by (rule gmb_loop_frame)
qed

lemma get_opcodes_frame: "get_opcodes a b = Inr (a', codes) \<Longrightarrow> a' = a"
proof -
  assume g: "get_opcodes a b = Inr (a', codes)"
  then obtain bl where "get_matching_blocks a b = Inr (a', bl)"
    unfolding get_opcodes_def by (cases "get_matching_blocks a b") auto
  then show "a' = a" by (rule get_matching_blocks_frame)
qed

lemma get_grouped_opcodes_frame:
  "get_grouped_opcodes a b n = Inr (a', groups) \<Longrightarrow> a' = a"
proof -
  assume g: "get_grouped_opcodes a b n = Inr (a', groups)"
  then obtain codes where "get_opcodes a b = Inr (a', codes)"
    unfolding get_grouped_opcodes_def by (cases "get_opcodes a b") (auto simp: Let_def)
  then show "a' = a" by (rule get_opcodes_frame)
qed

lemma unified_diff_frame:
  assumes "unified_diff a b fromfile tofile fromfiledate tofiledate n lineterm = Inr (a', diff)"
  shows "a' = a \<and>
    (\<exists>groups. get_grouped_opcodes a b n = Inr (a, groups) \<and>
       diff = (if groups = [] then []
               else [''--- '' @ fromfile @ (CHR 0x09 # fromfiledate) @ lineterm,
                     ''+++ '' @ tofile @ (CHR 0x09 # tofiledate) @ lineterm]
                    @ concat (map (hunk_lines a b lineterm) groups)))"
proof -
  from assms obtain groups where
    g: "get_grouped_opcodes a b n = Inr (a', groups)"
    and d: "diff = (if groups = [] then []
               else [''--- '' @ fromfile @ (CHR 0x09 # fromfiledate) @ lineterm,
                     ''+++ '' @ tofile @ (CHR 0x09 # tofiledate) @ lineterm]
                    @ concat (map (hunk_lines a' b lineterm) groups))"
    unfolding unified_diff_def by (cases "get_grouped_opcodes a b n") auto
  have "a' = a" using g by (rule get_grouped_opcodes_frame)
  then show ?thesis using g d by blast
qed

text \<open>
  C2. Every call of \<open>find_longest_match\<close> that returns leaves \<open>self.a\<close> as it was
  before the call: each tagged line that was replaced by the actual line is written
  back. Hence the list is unchanged when \<open>unified_diff\<close> renders its hunks, and every
  line of \<open>a\<close> in the diff is the original expected line, with its tag.
\<close>

theorem find_longest_match_restores_a:
  "(find_longest_match a b alo ahi blo bhi = Inr (a', ret) \<longrightarrow> a' = a) \<and>
   (unified_diff a b fromfile tofile fromfiledate tofiledate n lineterm = Inr (a'', diff) \<longrightarrow>
      a'' = a \<and>
      (\<exists>groups. get_grouped_opcodes a b n = Inr (a, groups) \<and>
         diff = (if groups = [] then []
                 else [''--- '' @ fromfile @ (CHR 0x09 # fromfiledate) @ lineterm,
                       ''+++ '' @ tofile @ (CHR 0x09 # tofiledate) @ lineterm]
                      @ concat (map (hunk_lines a b lineterm) groups))))"
  using find_longest_match_frame [of a b alo ahi blo bhi a' ret]
    unified_diff_frame [of a b fromfile tofile fromfiledate tofiledate n lineterm a'' diff]
  by blast

text \<open>
  The theorem at an expected transcript whose first line is a pattern that matches and
  whose second line differs: the search substitutes the first line and restores it, and
  the diff shows the pattern, not the actual line \<open>abc\<close>.
\<close>

theorem find_longest_match_restores_a_witness:
  "find_longest_match [''  a.* (re)\<newline>'', ''  b\<newline>''] [''  abc\<newline>'', ''  c\<newline>''] 0 2 0 2
     = Inr ([''  a.* (re)\<newline>'', ''  b\<newline>''], 0, 0, 1)
   \<and> unified_diff [''  a.* (re)\<newline>'', ''  b\<newline>''] [''  abc\<newline>'', ''  c\<newline>'']
         ''x'' ''y'' [] [] 3 ''\<newline>''
     = Inr ([''  a.* (re)\<newline>'', ''  b\<newline>''],
            [''--- x'' @ [CHR 0x09, NL], ''+++ y'' @ [CHR 0x09, NL], ''@@ -1,2 +1,2 @@\<newline>'',
             ''   a.* (re)\<newline>'', ''-  b\<newline>'', ''+  c\<newline>''])"
proof -
  have 1: "find_longest_match [''  a.* (re)\<newline>'', ''  b\<newline>''] [''  abc\<newline>'', ''  c\<newline>''] 0 2 0 2
     = Inr ([''  a.* (re)\<newline>'', ''  b\<newline>''], 0, 0, 1)"
    by code_simp
  have 2: "unified_diff [''  a.* (re)\<newline>'', ''  b\<newline>''] [''  abc\<newline>'', ''  c\<newline>'']
         ''x'' ''y'' [] [] 3 ''\<newline>''
     = Inr ([''  a.* (re)\<newline>'', ''  b\<newline>''],
            [''--- x'' @ [CHR 0x09, NL], ''+++ y'' @ [CHR 0x09, NL], ''@@ -1,2 +1,2 @@\<newline>'',
             ''   a.* (re)\<newline>'', ''-  b\<newline>'', ''+  c\<newline>''])"
    by code_simp
  show ?thesis
    using 1 2
      find_longest_match_restores_a [of "[''  a.* (re)\<newline>'', ''  b\<newline>'']"
        "[''  abc\<newline>'', ''  c\<newline>'']" 0 2 0 2 "[''  a.* (re)\<newline>'', ''  b\<newline>'']" "(0, 0, 1)"
        "''x''" "''y''" "[]" "[]" 3 "''\<newline>''" "[''  a.* (re)\<newline>'', ''  b\<newline>'']" "[]"]
    by simp
qed

section \<open>The transcript that test rebuilds\<close>

text \<open>The list \<open>refout\<close> is the list of the lines of the file.\<close>

lemma test_read_loop_refout:
  "rs_refout (snd (test_read_loop salt i ls st)) = rs_refout st @ ls"
  by (induction ls arbitrary: i st) (auto simp: test_read_line_def Let_def)

lemma test_refout_lines: "test_refout salt flines = flines"
  by (simp add: test_refout_def test_read_def test_read_loop_refout)

lemma of_char_digit: "k < 10 \<Longrightarrow> (of_char (char_of (48 + k :: nat)) :: nat) = 48 + k"
  by simp

lemma is_digit_char_of: "k < 10 \<Longrightarrow> is_digit (char_of (48 + k :: nat))"
  by (simp add: is_digit_def)

lemma not_space_digit: "is_digit c \<Longrightarrow> \<not> is_space c"
  by (auto simp: is_digit_def is_space_def)

lemma show_nat_digits: "list_all is_digit (show_nat n) \<and> show_nat n \<noteq> []"
proof (induction n rule: show_nat.induct)
  case (1 n)
  show ?case
  proof (cases "n < 10")
    case True
    then show ?thesis by (subst show_nat.simps, subst show_nat.simps) (simp add: is_digit_char_of)
  next
    case False
    then show ?thesis
      using "1.IH" by (subst show_nat.simps, subst show_nat.simps) (simp add: is_digit_char_of)
  qed
qed

lemma digits_val_snoc: "digits_val (ds @ [d]) = 10 * digits_val ds + (of_char d - 48)"
  by (simp add: digits_val_def)

lemma digits_val_show_nat: "digits_val (show_nat n) = n"
proof (induction n rule: show_nat.induct)
  case (1 n)
  show ?case
  proof (cases "n < 10")
    case True
    then show ?thesis by (subst show_nat.simps) (simp add: digits_val_def)
  next
    case False
    then show ?thesis
      using "1.IH" by (subst show_nat.simps) (simp add: digits_val_snoc)
  qed
qed

lemma py_int_show_nat: "py_int (show_nat n) = Inr (int n)"
proof -
  obtain c cs where s: "show_nat n = c # cs"
    using show_nat_digits [of n] by (cases "show_nat n") auto
  have "is_digit c" using show_nat_digits [of n] s by simp
  then have "c \<noteq> CHR ''-''" "c \<noteq> CHR ''+''" by (auto simp: is_digit_def)
  then show ?thesis
    using show_nat_digits [of n] digits_val_show_nat [of n] s by (simp add: py_int_def)
qed

lemma split_loop_word:
  "\<not> list_ex is_space w' \<Longrightarrow> is_space c \<Longrightarrow> w @ w' \<noteq> []
     \<Longrightarrow> split_loop (w' @ c # rest) w = (w @ w') # split_loop rest []"
  by (induction w' arbitrary: w) auto

lemma py_split_three:
  assumes "\<not> list_ex is_space f0" "\<not> list_ex is_space f1" "\<not> list_ex is_space f2"
    and "f0 \<noteq> []" "f1 \<noteq> []" "f2 \<noteq> []"
  shows "py_split (f0 @ '' '' @ f1 @ '' '' @ f2 @ ''\<newline>'') = [f0, f1, f2]"
proof -
  have sp: "is_space (CHR '' '')" "is_space NL" by (simp_all add: is_space_def)
  have "split_loop (f2 @ NL # []) [] = [f2]"
    using split_loop_word [of f2 NL "[]" "[]"] assms sp by simp
  then have "split_loop (f1 @ CHR '' '' # f2 @ [NL]) [] = [f1, f2]"
    using split_loop_word [of f1 "CHR '' ''" "[]" "f2 @ [NL]"] assms sp by simp
  then have "split_loop (f0 @ CHR '' '' # f1 @ CHR '' '' # f2 @ [NL]) [] = [f0, f1, f2]"
    using split_loop_word [of f0 "CHR '' ''" "[]" "f1 @ CHR '' '' # f2 @ [NL]"] assms sp by simp
  then show ?thesis by (simp add: py_split_def)
qed

lemma show_nat_no_space: "\<not> list_ex is_space (show_nat n)"
  using show_nat_digits [of n] not_space_digit
  by (auto simp: list_ex_iff list_all_iff)

lemma test_out_line_sentinel:
  assumes "startswith line salt" "os_postout st = ps @ [presalt]"
    "test_out_line salt line st = Inr st'"
  shows "os_postout st' =
           (if presalt = ''  \<newline>'' then ps else ps @ [butlast presalt @ ''%\<newline>''])
           @ (if os_ret st' \<noteq> 0 then [''  ['' @ show_int (os_ret st') @ '']\<newline>''] else [])
           @ after_pop (os_after st) (os_pos st)"
  using assms
  by (auto simp: test_out_line_def Let_def split: sum.splits if_splits)

lemma test_out_line_empty:
  "startswith line salt \<Longrightarrow> os_postout st = [] \<Longrightarrow> test_out_line salt line st = Inl IndexError"
  by (simp add: test_out_line_def)

lemma test_out_line_wellformed:
  assumes "\<not> list_ex is_space t" "os_postout st = ps @ [presalt]"
  shows "test_out_line (''CRAM'' @ t)
           (''CRAM'' @ t @ '' '' @ show_nat i @ '' '' @ show_nat c @ ''\<newline>'') st
         = Inr \<lparr>os_postout =
                  (if presalt = ''  \<newline>'' then ps else ps @ [butlast presalt @ ''%\<newline>''])
                  @ (if c \<noteq> 0 then [''  ['' @ show_nat c @ '']\<newline>''] else [])
                  @ after_pop (os_after st) (os_pos st),
                os_after = (os_after st)(os_pos st := None),
                os_pos = int i, os_ret = int c\<rparr>"
proof -
  have ns: "\<not> list_ex is_space (''CRAM'' @ t)"
    using assms(1) by (simp add: is_space_def)
  have sp: "py_split ((''CRAM'' @ t) @ '' '' @ show_nat i @ '' '' @ show_nat c @ ''\<newline>'')
              = [''CRAM'' @ t, show_nat i, show_nat c]"
    using py_split_three [OF ns show_nat_no_space [of i] show_nat_no_space [of c]]
      show_nat_digits [of i] show_nat_digits [of c] by simp
  have sw: "startswith (''CRAM'' @ t @ '' '' @ show_nat i @ '' '' @ show_nat c @ ''\<newline>'') (''CRAM'' @ t)"
    by (simp add: startswith_def)
  show ?thesis
    using sp sw assms(2)
    by (simp add: test_out_line_def Let_def py_index_def py_int_show_nat show_int_def)
qed

text \<open>
  C3 (amended). During transcript reconstruction, whenever a sentinel line is read, the
  last line buffered so far is taken off the transcript. If it is the bare blank line
  (two spaces and a newline, which is the newline that the sentinel's own \<open>echo\<close>
  prints) it is dropped; any other line is put back with its trailing newline replaced
  by a percent sign and a newline. With nothing buffered, reading a sentinel raises
  \<open>IndexError\<close>. A line that is not a sentinel is appended, indented by two spaces.
\<close>

theorem sentinel_rewrites_last_line:
  "(startswith line salt \<and> os_postout st = ps @ [presalt]
      \<and> test_out_line salt line st = Inr st' \<longrightarrow>
      os_postout st' =
        (if presalt = ''  \<newline>'' then ps else ps @ [butlast presalt @ ''%\<newline>''])
        @ (if os_ret st' \<noteq> 0 then [''  ['' @ show_int (os_ret st') @ '']\<newline>''] else [])
        @ after_pop (os_after st) (os_pos st)) \<and>
   (startswith line salt \<and> os_postout st = [] \<longrightarrow> test_out_line salt line st = Inl IndexError) \<and>
   (\<not> startswith line salt \<longrightarrow>
      test_out_line salt line st = Inr (st\<lparr>os_postout := os_postout st @ [''  '' @ line]\<rparr>))"
proof -
  have 3: "\<not> startswith line salt \<longrightarrow>
      test_out_line salt line st = Inr (st\<lparr>os_postout := os_postout st @ [''  '' @ line]\<rparr>)"
    by (simp add: test_out_line_def)
  show ?thesis
    using test_out_line_sentinel [of line salt st ps presalt st']
      test_out_line_empty [of line salt st] 3
    by blast
qed

text \<open>
  The theorem at a sentinel read after the line \<open>out\<close> (output that did not end in a
  newline): the line gets the percent sign.
\<close>

theorem sentinel_rewrites_last_line_witness:
  "startswith ''CRAM1 1 0\<newline>'' ''CRAM1''
   \<and> (\<exists>st'. test_out_line ''CRAM1'' ''CRAM1 1 0\<newline>''
               \<lparr>os_postout = [''  $ printf out\<newline>'', ''  out\<newline>''], os_after = Map.empty,
                os_pos = 0, os_ret = 0\<rparr> = Inr st'
            \<and> os_postout st' = [''  $ printf out\<newline>'', ''  out%\<newline>''])"
proof -
  let ?st = "\<lparr>os_postout = [''  $ printf out\<newline>'', ''  out\<newline>''], os_after = Map.empty,
                os_pos = 0, os_ret = 0\<rparr>"
  have s1: "show_nat (Suc 0) = ''1''" and s0: "show_nat 0 = ''0''"
    by code_simp+
  have w: "test_out_line ''CRAM1'' ''CRAM1 1 0\<newline>'' ?st
           = Inr \<lparr>os_postout = [''  $ printf out\<newline>'', ''  out%\<newline>''],
                  os_after = Map.empty(0 := None), os_pos = 1, os_ret = 0\<rparr>"
    using test_out_line_wellformed [of "''1''" ?st "[''  $ printf out\<newline>'']" "''  out\<newline>''" 1 0]
    by (simp add: s1 s0 is_space_def after_pop_def)
  have sw: "startswith ''CRAM1 1 0\<newline>'' ''CRAM1''"
    by (simp add: startswith_def)
  show ?thesis
    using sw w
      sentinel_rewrites_last_line [of "''CRAM1 1 0\<newline>''" "''CRAM1''" ?st
        "[''  $ printf out\<newline>'']" "''  out\<newline>''"
        "\<lparr>os_postout = [''  $ printf out\<newline>'', ''  out%\<newline>''],
                  os_after = Map.empty(0 := None), os_pos = 1, os_ret = 0\<rparr>"]
    by simp
qed

text \<open>
  C3 as stated (a bare blank last line gets the percent sign, other lines are left
  unchanged) fails both ways: the blank line after \<open>a\<close> is dropped, and a last line \<open>a\<close>
  that is not blank is changed.
\<close>

theorem sentinel_blank_line_counterexample:
  "(case test_out_line ''CRAM1'' ''CRAM1 1 0\<newline>''
           \<lparr>os_postout = [''  a\<newline>'', ''  \<newline>''], os_after = Map.empty, os_pos = 0, os_ret = 0\<rparr> of
      Inl e \<Rightarrow> False
    | Inr st \<Rightarrow> os_postout st = [''  a\<newline>''])
   \<and> (case test_out_line ''CRAM1'' ''CRAM1 1 0\<newline>''
           \<lparr>os_postout = [''  a\<newline>''], os_after = Map.empty, os_pos = 0, os_ret = 0\<rparr> of
      Inl e \<Rightarrow> False
    | Inr st \<Rightarrow> os_postout st = [''  a%\<newline>''])"
  by code_simp

text \<open>
  C5. When a sentinel line reports the exit code \<open>c\<close> and \<open>c\<close> is not zero, the runner
  appends the line made of two spaces and \<open>[c]\<close> after the output collected for the
  command, before the lines of the file that follow the command. Consequently a file
  with a command that prints \<open>err\<close> and exits 1, followed by the lines \<open>err\<close> and \<open>[1]\<close>,
  gives an empty diff, and a command that prints \<open>out\<close> and ends with the exit code 7 in
  a file that does not declare \<open>[7]\<close> gives a diff that inserts the line \<open>[7]\<close> after the
  output. The command of the second file is \<open>echo out; (exit 7)\<close>: the subshell ends with
  the code 7 and the shell that reads the file goes on to the sentinel, which reports
  it. (After a plain \<open>exit 7\<close> the shell itself ends and the last sentinel is never
  printed.) The shell output of both files is the one \<open>/bin/sh\<close> prints for them with the
  salt \<open>CRAM1\<close>.
\<close>

theorem nonzero_exit_code_line:
  "(\<not> list_ex is_space t \<and> os_postout st = ps @ [presalt] \<and> c \<noteq> 0 \<longrightarrow>
      (\<exists>st'. test_out_line (''CRAM'' @ t)
                (''CRAM'' @ t @ '' '' @ show_nat i @ '' '' @ show_nat c @ ''\<newline>'') st = Inr st'
         \<and> os_postout st' =
             (if presalt = ''  \<newline>'' then ps else ps @ [butlast presalt @ ''%\<newline>''])
             @ [''  ['' @ show_nat c @ '']\<newline>'']
             @ after_pop (os_after st) (os_pos st))) \<and>
   test ''/t'' ''/t/a.t'' ''CRAM1'' [''  $ echo err; false\<newline>'', ''  err\<newline>'', ''  [1]\<newline>'']
     [''\<newline>'', ''CRAM1 0 0\<newline>'', ''err\<newline>'', ''\<newline>'', ''CRAM1 3 1\<newline>'']
   = Inr ([''  $ echo err; false\<newline>'', ''  err\<newline>'', ''  [1]\<newline>''],
          [''  $ echo err; false\<newline>'', ''  err\<newline>'', ''  [1]\<newline>''], []) \<and>
   test ''/t'' ''/t/a.t'' ''CRAM1'' [''  $ echo out; (exit 7)\<newline>'', ''  out\<newline>'']
     [''\<newline>'', ''CRAM1 0 0\<newline>'', ''out\<newline>'', ''\<newline>'', ''CRAM1 2 7\<newline>'']
   = Inr ([''  $ echo out; (exit 7)\<newline>'', ''  out\<newline>''],
          [''  $ echo out; (exit 7)\<newline>'', ''  out\<newline>'', ''  [7]\<newline>''],
          [''--- /t/a.t'' @ [CHR 0x09, NL], ''+++ /t/a.t.err'' @ [CHR 0x09, NL],
           ''@@ -1,2 +1,3 @@\<newline>'', ''   $ echo out; (exit 7)\<newline>'', ''   out\<newline>'',
           ''+  [7]\<newline>''])"
proof -
  have 1: "\<exists>st'. test_out_line (''CRAM'' @ t)
                (''CRAM'' @ t @ '' '' @ show_nat i @ '' '' @ show_nat c @ ''\<newline>'') st = Inr st'
         \<and> os_postout st' =
             (if presalt = ''  \<newline>'' then ps else ps @ [butlast presalt @ ''%\<newline>''])
             @ [''  ['' @ show_nat c @ '']\<newline>'']
             @ after_pop (os_after st) (os_pos st)"
    if "\<not> list_ex is_space t" "os_postout st = ps @ [presalt]" "c \<noteq> 0"
    using test_out_line_wellformed [OF that(1,2), of i c] that(3) by simp
  have 2: "test ''/t'' ''/t/a.t'' ''CRAM1'' [''  $ echo err; false\<newline>'', ''  err\<newline>'', ''  [1]\<newline>'']
     [''\<newline>'', ''CRAM1 0 0\<newline>'', ''err\<newline>'', ''\<newline>'', ''CRAM1 3 1\<newline>'']
   = Inr ([''  $ echo err; false\<newline>'', ''  err\<newline>'', ''  [1]\<newline>''],
          [''  $ echo err; false\<newline>'', ''  err\<newline>'', ''  [1]\<newline>''], [])"
    by code_simp
  have 3: "test ''/t'' ''/t/a.t'' ''CRAM1'' [''  $ echo out; (exit 7)\<newline>'', ''  out\<newline>'']
     [''\<newline>'', ''CRAM1 0 0\<newline>'', ''out\<newline>'', ''\<newline>'', ''CRAM1 2 7\<newline>'']
   = Inr ([''  $ echo out; (exit 7)\<newline>'', ''  out\<newline>''],
          [''  $ echo out; (exit 7)\<newline>'', ''  out\<newline>'', ''  [7]\<newline>''],
          [''--- /t/a.t'' @ [CHR 0x09, NL], ''+++ /t/a.t.err'' @ [CHR 0x09, NL],
           ''@@ -1,2 +1,3 @@\<newline>'', ''   $ echo out; (exit 7)\<newline>'', ''   out\<newline>'',
           ''+  [7]\<newline>''])"
    by code_simp
  show ?thesis using 1 2 3 by blast
qed

text \<open>The theorem at the sentinel \<open>CRAM1 2 7\<close>, read after the output line \<open>out\<close>.\<close>

theorem nonzero_exit_code_line_witness:
  "\<not> list_ex is_space ''1'' \<and> (7::nat) \<noteq> 0
   \<and> (\<exists>st'. test_out_line ''CRAM1'' ''CRAM1 2 7\<newline>''
               \<lparr>os_postout = [''  $ echo out; (exit 7)\<newline>'', ''  out\<newline>'', ''  \<newline>''],
                os_after = Map.empty, os_pos = 0, os_ret = 0\<rparr> = Inr st'
            \<and> os_postout st' = [''  $ echo out; (exit 7)\<newline>'', ''  out\<newline>'', ''  [7]\<newline>''])"
proof -
  let ?st = "\<lparr>os_postout = [''  $ echo out; (exit 7)\<newline>'', ''  out\<newline>'', ''  \<newline>''],
                os_after = Map.empty, os_pos = 0, os_ret = 0\<rparr>"
  have s2: "show_nat 2 = ''2''" and s7: "show_nat 7 = ''7''"
    by code_simp+
  have ns: "\<not> list_ex is_space ''1''"
    by (simp add: is_space_def)
  show ?thesis
    using ns s2 s7
      nonzero_exit_code_line [of "''1''" ?st "[''  $ echo out; (exit 7)\<newline>'', ''  out\<newline>'']"
        "''  \<newline>''" 7 2]
    by (simp add: after_pop_def)
qed


text \<open>
  The names in the header of the diff are made from \<open>os.path.abspath(path)\<close>: a path with
  \<open>..\<close> is normalised.
\<close>

lemma test_header_abspath:
  "test ''/w'' ''/w/../x.t'' ''CRAM1'' [''  $ echo out\<newline>'']
     [''\<newline>'', ''CRAM1 0 0\<newline>'', ''out\<newline>'', ''\<newline>'', ''CRAM1 1 0\<newline>'']
   = Inr ([''  $ echo out\<newline>''], [''  $ echo out\<newline>'', ''  out\<newline>''],
          [''--- /x.t'' @ [CHR 0x09, NL], ''+++ /x.t.err'' @ [CHR 0x09, NL],
           ''@@ -1,1 +1,2 @@\<newline>'', ''   $ echo out\<newline>'', ''+  out\<newline>''])"
  by code_simp


section \<open>Discovery and the loop of run\<close>

lemma run_path_seen: "path \<in> set (seen st) \<Longrightarrow> run_path w opts path st = Inr st"
  by (simp add: run_path_def)

lemma run_path_empty:
  "path \<notin> set (seen st) \<Longrightarrow> w_size w (path_join (w_cwd w) path) = Some 0
     \<Longrightarrow> run_path w opts path st
         = Inr (st\<lparr>seen := seen st @ [path], skipped := skipped st + 1,
                   out := out st @ (if verbose opts then [path @ '': '', ''empty\<newline>''] else [''s''])\<rparr>)"
  by (simp add: run_path_def Let_def)

lemma run_failed_fields:
  "run_failed opts path abspath postout diff st = Inr st'
     \<Longrightarrow> seen st' = seen st \<and> skipped st' = skipped st \<and> failed st' = failed st + 1
         \<and> executed st' = executed st"
  by (auto simp: run_failed_def Let_def split: if_splits prod.splits option.splits)

text \<open>What one round of the loop does to the counters, for a path not seen before.\<close>

lemma run_path_new:
  assumes "path \<notin> set (seen st)" "run_path w opts path st = Inr st'"
  shows "seen st' = seen st @ [path]
     \<and> (w_size w (path_join (w_cwd w) path) = Some 0 \<longrightarrow>
          skipped st' = skipped st + 1 \<and> failed st' = failed st \<and> executed st' = executed st)
     \<and> (w_size w (path_join (w_cwd w) path) \<noteq> Some 0 \<longrightarrow>
          skipped st' = skipped st \<and> failed st' \<le> failed st + 1 \<and> failed st \<le> failed st'
          \<and> executed st' = executed st @ [(path, path_join (w_cwd w) path)])"
proof (cases "w_size w (path_join (w_cwd w) path) = Some 0")
  case True
  then show ?thesis using assms run_path_empty [of path st w opts] by auto
next
  case False
  then obtain sz where sz: "w_size w (path_join (w_cwd w) path) = Some sz" "sz \<noteq> 0"
    using assms by (cases "w_size w (path_join (w_cwd w) path)") (auto simp: run_path_def Let_def)
  define getcwd where
    "getcwd = (if truthy (basetmp opts)
               then path_abspath (w_cwd w)
                      (case basetmp opts of None \<Rightarrow> [] | Some bt \<Rightarrow> path_join bt (basename path))
               else w_cwd w)"
  from assms sz obtain refout postout diff where
    t: "test getcwd (path_join (w_cwd w) path) (w_salt w (path_join (w_cwd w) path))
          (w_lines w (path_join (w_cwd w) path)) (w_output w (path_join (w_cwd w) path))
        = Inr (refout, postout, diff)"
    unfolding getcwd_def by (auto simp: run_path_def Let_def split: if_splits sum.splits)
  show ?thesis
  proof (cases "diff = []")
    case True
    then show ?thesis
      using assms sz t unfolding getcwd_def
      by (auto simp: run_path_def Let_def split: if_splits)
  next
    case nd: False
    from assms sz t nd obtain st4 where
      f: "run_failed opts path (path_join (w_cwd w) path) postout diff st4 = Inr st'"
      and s4: "seen st4 = seen st @ [path]" "skipped st4 = skipped st" "failed st4 = failed st"
        "executed st4 = executed st @ [(path, path_join (w_cwd w) path)]"
      unfolding getcwd_def by (auto simp: run_path_def Let_def split: if_splits)
    show ?thesis
      using run_failed_fields [OF f] s4 sz by auto
  qed
qed

lemma run_loop_invariant:
  assumes "run_loop w opts paths st = Inr st'"
    and "distinct (seen st)"
    and "skipped st + length (executed st) = length (seen st)"
    and "failed st \<le> length (executed st)"
    and "map fst (executed st) = filter (\<lambda>p. w_size w (path_join (w_cwd w) p) \<noteq> Some 0) (seen st)"
    and "\<forall>x \<in> set (executed st). snd x = path_join (w_cwd w) (fst x)"
  shows "distinct (seen st') \<and> set (seen st') = set (seen st) \<union> set paths
     \<and> skipped st' + length (executed st') = length (seen st')
     \<and> failed st' \<le> length (executed st')
     \<and> map fst (executed st')
         = filter (\<lambda>p. w_size w (path_join (w_cwd w) p) \<noteq> Some 0) (seen st')
     \<and> (\<forall>x \<in> set (executed st'). snd x = path_join (w_cwd w) (fst x))"
  using assms
proof (induction paths arbitrary: st)
  case Nil
  then show ?case by simp
next
  case (Cons path paths)
  from Cons.prems(1) obtain st1 where
    r: "run_path w opts path st = Inr st1" and l: "run_loop w opts paths st1 = Inr st'"
    by (auto split: sum.splits)
  show ?case
  proof (cases "path \<in> set (seen st)")
    case True
    then have "st1 = st" using r run_path_seen [of path st w opts] by simp
    then show ?thesis using Cons.IH [OF l [unfolded \<open>st1 = st\<close>]] Cons.prems True l by auto
  next
    case False
    note n = run_path_new [OF False r]
    have 1: "distinct (seen st1)" using n Cons.prems(2) False by simp
    have 2: "skipped st1 + length (executed st1) = length (seen st1)"
      using n Cons.prems(3) by (cases "w_size w (path_join (w_cwd w) path) = Some 0") auto
    have 3: "failed st1 \<le> length (executed st1)"
      using n Cons.prems(4) by (cases "w_size w (path_join (w_cwd w) path) = Some 0") auto
    have 4: "map fst (executed st1)
         = filter (\<lambda>p. w_size w (path_join (w_cwd w) p) \<noteq> Some 0) (seen st1)"
      using n Cons.prems(5) by (cases "w_size w (path_join (w_cwd w) path) = Some 0") auto
    have 5: "\<forall>x \<in> set (executed st1). snd x = path_join (w_cwd w) (fst x)"
      using n Cons.prems(6) by (cases "w_size w (path_join (w_cwd w) path) = Some 0") auto
    show ?thesis
      using Cons.IH [OF l 1 2 3 4 5] n by auto
  qed
qed

lemma run_result:
  assumes "run w dirs0 stdin0 paths opts = Inr st"
  shows "distinct (seen st) \<and> set (seen st) = set (findtests (w_fs w) paths)
     \<and> length (seen st) = card (set (findtests (w_fs w) paths))
     \<and> skipped st + length (executed st) = length (seen st)
     \<and> failed st \<le> length (executed st)
     \<and> map fst (executed st)
         = filter (\<lambda>p. w_size w (path_join (w_cwd w) p) \<noteq> Some 0) (seen st)
     \<and> (\<forall>x \<in> set (executed st). snd x = path_join (w_cwd w) (fst x))
     \<and> last (out st) = summary st"
proof -
  from assms obtain st0 where
    l: "run_loop w opts (findtests (w_fs w) paths)
             \<lparr>seen = [], skipped = 0, failed = 0, out = [], executed = [], tmpdirs = dirs0,
              written = [], merged = [], stdin = stdin0\<rparr> = Inr st0"
    and st: "st = st0\<lparr>out := out st0 @ (if \<not> verbose opts then [''\<newline>''] else []) @ [summary st0]\<rparr>"
    by (auto simp: run_def split: sum.splits)
  have inv: "distinct (seen st0) \<and> set (seen st0) = set (findtests (w_fs w) paths)
     \<and> skipped st0 + length (executed st0) = length (seen st0)
     \<and> failed st0 \<le> length (executed st0)
     \<and> map fst (executed st0)
         = filter (\<lambda>p. w_size w (path_join (w_cwd w) p) \<noteq> Some 0) (seen st0)
     \<and> (\<forall>x \<in> set (executed st0). snd x = path_join (w_cwd w) (fst x))"
    using run_loop_invariant [OF l] by simp
  then have "length (seen st0) = card (set (findtests (w_fs w) paths))"
    using distinct_card [of "seen st0"] by simp
  then show ?thesis using inv st by (simp add: summary_def)
qed



text \<open>
  C10. Within one call of \<open>run\<close>, a path that has been seen is skipped without any
  effect, so every distinct path that discovery produces is passed to \<open>test\<close> at most
  once; and the number of tests in the summary line, which reads
  \<open># Ran n tests, k skipped, j failed.\<close>, is the number of distinct discovered paths,
  the skipped files included.
\<close>

theorem each_path_runs_once:
  "(path \<in> set (seen st0) \<longrightarrow> run_path w opts path st0 = Inr st0) \<and>
   (run w dirs0 stdin0 paths opts = Inr st \<longrightarrow>
      distinct (seen st) \<and> set (seen st) = set (findtests (w_fs w) paths) \<and>
      distinct (map fst (executed st)) \<and> set (map fst (executed st)) \<subseteq> set (seen st) \<and>
      skipped st + length (executed st) = card (set (findtests (w_fs w) paths)) \<and>
      last (out st)
        = ''# Ran '' @ show_nat (card (set (findtests (w_fs w) paths))) @ '' tests, ''
          @ show_nat (skipped st) @ '' skipped, '' @ show_nat (failed st) @ '' failed.\<newline>'')"
proof -
  have 2: "distinct (seen st) \<and> set (seen st) = set (findtests (w_fs w) paths) \<and>
      distinct (map fst (executed st)) \<and> set (map fst (executed st)) \<subseteq> set (seen st) \<and>
      skipped st + length (executed st) = card (set (findtests (w_fs w) paths)) \<and>
      last (out st)
        = ''# Ran '' @ show_nat (card (set (findtests (w_fs w) paths))) @ '' tests, ''
          @ show_nat (skipped st) @ '' skipped, '' @ show_nat (failed st) @ '' failed.\<newline>''"
    if r: "run w dirs0 stdin0 paths opts = Inr st"
  proof -
    note rr = run_result [OF r]
    have d: "distinct (map fst (executed st))"
      using rr by (simp add: distinct_filter)
    have s: "set (map fst (executed st)) \<subseteq> set (seen st)"
      using rr by auto
    show ?thesis
      using rr d s by (simp add: summary_def)
  qed
  show ?thesis
    using run_path_seen [of path st0 w opts] 2 by blast
qed

text \<open>The theorem at a run over \<open>a.t\<close>, \<open>b.t\<close> and \<open>a.t\<close> again, both files passing.\<close>

theorem each_path_runs_once_witness:
  "\<exists>st. run \<lparr>w_cwd = ''/w'', w_fs = (\<lambda>p. None), w_size = (\<lambda>p. Some 9),
              w_lines = (\<lambda>p. [''  $ true\<newline>'']), w_salt = (\<lambda>p. ''CRAM1''),
              w_output = (\<lambda>p. [''\<newline>'', ''CRAM1 0 0\<newline>'', ''\<newline>'', ''CRAM1 1 0\<newline>''])\<rparr>
          [] [] [''a.t'', ''b.t'', ''a.t'']
          \<lparr>quiet = False, verbose = False, interactive = False, basetmp = None,
           keeptmp = False, answer = None\<rparr> = Inr st
     \<and> out st = [''.'', ''.'', ''\<newline>'', ''# Ran 2 tests, 0 skipped, 0 failed.\<newline>'']
     \<and> executed st = [(''a.t'', ''/w/a.t''), (''b.t'', ''/w/b.t'')]
     \<and> distinct (map fst (executed st))"
proof -
  let ?w = "\<lparr>w_cwd = ''/w'', w_fs = (\<lambda>p. None), w_size = (\<lambda>p. Some 9),
              w_lines = (\<lambda>p. [''  $ true\<newline>'']), w_salt = (\<lambda>p. ''CRAM1''),
              w_output = (\<lambda>p. [''\<newline>'', ''CRAM1 0 0\<newline>'', ''\<newline>'', ''CRAM1 1 0\<newline>''])\<rparr>"
  let ?o = "\<lparr>quiet = False, verbose = False, interactive = False, basetmp = None,
           keeptmp = False, answer = None\<rparr>"
  let ?st = "\<lparr>seen = [''a.t'', ''b.t''], skipped = 0, failed = 0,
             out = [''.'', ''.'', ''\<newline>'', ''# Ran 2 tests, 0 skipped, 0 failed.\<newline>''],
             executed = [(''a.t'', ''/w/a.t''), (''b.t'', ''/w/b.t'')], tmpdirs = [],
             written = [], merged = [], stdin = []\<rparr>"
  have e: "run ?w [] [] [''a.t'', ''b.t'', ''a.t''] ?o = Inr ?st"
    by code_simp
  have "distinct (map fst (executed ?st))"
    using e each_path_runs_once [of "''a.t''" ?st ?w ?o "[]" "[]" "[''a.t'', ''b.t'', ''a.t'']" ?st]
    by blast
  then show ?thesis using e by simp
qed

text \<open>
  C9, at the tree \<open>proj\<close> with the file \<open>a.t\<close> and the directory \<open>.hidden\<close>, which holds
  \<open>y.t\<close> and the directory \<open>sub\<close> with \<open>x.t\<close>. The claim says that no file under a
  directory whose name starts with a dot is yielded. \<open>findtests\<close> skips \<open>y.t\<close> and
  yields \<open>x.t\<close>: the walk still enters the subdirectories of \<open>.hidden\<close>, and the name
  \<open>sub\<close> does not start with a dot.
\<close>

theorem findtests_enters_dot_directory:
  "findtests
     (\<lambda>p. if p = ''proj''
           then Some (Dir [(''a.t'', File),
                           (''.hidden'', Dir [(''y.t'', File), (''sub'', Dir [(''x.t'', File)])])])
           else None)
     [''proj'']
   = [''proj/a.t'', ''proj/.hidden/sub/x.t'']"
  by code_simp


section \<open>Transcripts that agree give no diff\<close>

lemma np_nonpop:
  "b2j xs (xs ! i) \<noteq> [] \<Longrightarrow> np xs i = (if i = 0 then 0 else np xs (i - 1)) + 1"
  by (cases i) auto

lemma np_pop: "b2j xs (xs ! i) = [] \<Longrightarrow> np xs i = 0"
  by (cases i) auto

lemma b2j_nonempty:
  assumes "b2j xs x \<noteq> []"
  shows "b2j xs x = filter (\<lambda>j. xs ! j = x) [0..<length xs]"
  using assms by (auto simp: b2j_def Let_def split: if_splits)

lemma flm_row_diag:
  assumes "flm_row post i 0 N j2len nj bst = (nj', bst')"
    and "sorted_wrt (<) post" "\<forall>j \<in> set post. j < N"
    and "np xs i = (if i = 0 then 0 else np xs (i - 1)) + 1"
    and "\<forall>j \<in> set post. np xs j = (if j = 0 then 0 else np xs (j - 1)) + 1"
    and "\<forall>j v. j2len j = Some v \<longrightarrow> 0 < i \<and> v \<le> np xs (i - 1) \<and> v \<le> np xs j"
    and "0 < i \<longrightarrow> (case j2len (i - 1) of None \<Rightarrow> 0 | Some v \<Rightarrow> v) = np xs (i - 1)"
    and "\<forall>j v. nj j = Some v \<longrightarrow> v \<le> np xs i \<and> v \<le> np xs j"
    and "i \<in> set post \<or> (nj i = Some (np xs i) \<and> np xs i \<le> snd (snd bst))"
    and "fst bst = fst (snd bst)" "\<forall>r < i. np xs r \<le> snd (snd bst)"
  shows "(\<forall>j v. nj' j = Some v \<longrightarrow> v \<le> np xs i \<and> v \<le> np xs j) \<and> nj' i = Some (np xs i)
     \<and> np xs i \<le> snd (snd bst') \<and> fst bst' = fst (snd bst')
     \<and> (\<forall>r < i. np xs r \<le> snd (snd bst'))"
  using assms
proof (induction post arbitrary: nj bst)
  case Nil
  then show ?case by simp
next
  case (Cons j rest)
  obtain d e s where bst: "bst = (d, e, s)" by (cases bst)
  have de: "d = e" using Cons.prems(10) bst by simp
  define k where "k = (if j = 0 then 0 else (case j2len (j - 1) of None \<Rightarrow> 0 | Some v \<Rightarrow> v)) + 1"
  define bst1 where "bst1 = (if s < k then (i + 1 - k, j + 1 - k, k) else bst)"
  have jN: "j < N" using Cons.prems(3) by simp
  have npj: "np xs j = (if j = 0 then 0 else np xs (j - 1)) + 1"
    using Cons.prems(5) by simp
  have kb: "k \<le> np xs i \<and> k \<le> np xs j"
  proof (cases "j = 0")
    case True
    then show ?thesis using Cons.prems(4) npj by (simp add: k_def)
  next
    case False
    show ?thesis
    proof (cases "j2len (j - 1)")
      case None
      then show ?thesis using False Cons.prems(4) npj by (simp add: k_def)
    next
      case (Some v)
      then have "0 < i \<and> v \<le> np xs (i - 1) \<and> v \<le> np xs (j - 1)"
        using Cons.prems(6) by blast
      then show ?thesis using False Some Cons.prems(4) npj by (simp add: k_def)
    qed
  qed
  have step: "flm_row rest i 0 N j2len (nj(j \<mapsto> k)) bst1 = (nj', bst')"
    using Cons.prems(1) jN unfolding k_def bst1_def bst
    by (auto simp: Let_def split: if_splits)
  have srt: "sorted_wrt (<) rest" "\<forall>x \<in> set rest. j < x"
    using Cons.prems(2) by simp_all
  have a1: "\<forall>j' v. (nj(j \<mapsto> k)) j' = Some v \<longrightarrow> v \<le> np xs i \<and> v \<le> np xs j'"
    using Cons.prems(8) kb by auto
  have main: "(i \<in> set rest \<or> ((nj(j \<mapsto> k)) i = Some (np xs i) \<and> np xs i \<le> snd (snd bst1)))
      \<and> fst bst1 = fst (snd bst1) \<and> (\<forall>r < i. np xs r \<le> snd (snd bst1))"
  proof (cases "j = i")
    case True
    have "k = np xs i"
    proof (cases "i = 0")
      case True
      then show ?thesis using \<open>j = i\<close> Cons.prems(4) by (simp add: k_def)
    next
      case False
      then show ?thesis using \<open>j = i\<close> Cons.prems(4,7) by (simp add: k_def)
    qed
    then show ?thesis
      using True Cons.prems(11) bst de by (auto simp: bst1_def)
  next
    case False
    have nk: "\<not> s < k"
    proof (cases "j < i")
      case True
      then have "np xs j \<le> s" using Cons.prems(11) bst by simp
      then show ?thesis using kb by simp
    next
      case f: False
      then have "i < j" using False by simp
      then have "i \<notin> set (j # rest)" using srt(2) by auto
      then have "np xs i \<le> s" using Cons.prems(9) bst by simp
      then show ?thesis using kb by simp
    qed
    then have "bst1 = bst" by (simp add: bst1_def)
    then show ?thesis
      using False Cons.prems(9,10,11) by auto
  qed
  show ?case
    by (rule Cons.IH [OF step srt(1)])
      (use Cons.prems(3,4,5,6,7) a1 main in auto)
qed

lemma flm_rows_diag:
  assumes "i \<le> length xs" "diag_state xs i j2len best"
  shows "\<exists>d s. flm_rows xs xs i (length xs) 0 (length xs) j2len best = Inr (d, d, s)"
  using assms
proof (induction "length xs - i" arbitrary: i j2len best)
  case 0
  then obtain d e s where "best = (d, e, s)" "d = e"
    by (cases best) (auto simp: diag_state_def)
  then show ?case using 0 by (simp add: flm_rows.simps)
next
  case (Suc m)
  then have iN: "i < length xs" by simp
  obtain d e s where bst: "best = (d, e, s)" by (cases best)
  have ds: "d = e" "\<forall>r < i. np xs r \<le> s"
    using Suc.prems(2) bst by (auto simp: diag_state_def)
  obtain nj' bst' where row:
    "flm_row (b2j xs (xs ! i)) i 0 (length xs) j2len Map.empty best = (nj', bst')"
    by (cases "flm_row (b2j xs (xs ! i)) i 0 (length xs) j2len Map.empty best") auto
  have next_state: "diag_state xs (i + 1) nj' bst'"
  proof (cases "b2j xs (xs ! i) = []")
    case True
    then have "nj' = Map.empty" "bst' = best" using row by simp_all
    then show ?thesis
      using np_pop [OF True] ds bst by (auto simp: diag_state_def less_Suc_eq)
  next
    case False
    note js = b2j_nonempty [OF False]
    have mem: "i \<in> set (b2j xs (xs ! i))" using js iN by simp
    have npj: "\<forall>j \<in> set (b2j xs (xs ! i)). np xs j = (if j = 0 then 0 else np xs (j - 1)) + 1"
    proof
      fix j assume "j \<in> set (b2j xs (xs ! i))"
      then have "xs ! j = xs ! i" using js by simp
      then have "b2j xs (xs ! j) \<noteq> []" using False by simp
      then show "np xs j = (if j = 0 then 0 else np xs (j - 1)) + 1" by (rule np_nonpop)
    qed
    have srt: "sorted_wrt (<) (b2j xs (xs ! i))"
      unfolding js by (rule sorted_wrt_filter) simp
    have bnd: "\<forall>j \<in> set (b2j xs (xs ! i)). j < length xs"
      unfolding js by simp
    have A: "\<forall>j v. j2len j = Some v \<longrightarrow> 0 < i \<and> v \<le> np xs (i - 1) \<and> v \<le> np xs j"
      and B: "0 < i \<longrightarrow> (case j2len (i - 1) of None \<Rightarrow> 0 | Some v \<Rightarrow> v) = np xs (i - 1)"
      using Suc.prems(2) by (auto simp: diag_state_def)
    have r: "(\<forall>j v. nj' j = Some v \<longrightarrow> v \<le> np xs i \<and> v \<le> np xs j) \<and> nj' i = Some (np xs i)
     \<and> np xs i \<le> snd (snd bst') \<and> fst bst' = fst (snd bst')
     \<and> (\<forall>r < i. np xs r \<le> snd (snd bst'))"
      by (rule flm_row_diag [OF row srt bnd np_nonpop [OF False] npj A B])
        (use mem ds bst in auto)
    then show ?thesis
      by (cases bst') (auto simp: diag_state_def less_Suc_eq)
  qed
  have "m = length xs - (i + 1)" using Suc.hyps(2) by simp
  then obtain d' s' where
    "flm_rows xs xs (i + 1) (length xs) 0 (length xs) nj' bst' = Inr (d', d', s')"
    using Suc.hyps(1) [of "i + 1" nj' bst'] iN next_state by auto
  then show ?case
    using iN row by (subst flm_rows.simps) simp
qed

lemma flm_extend_back_same:
  "d + s \<le> length xs \<Longrightarrow> flm_extend_back xs xs 0 0 (d, d, s) = Inr (0, 0, s + d)"
proof (induction d arbitrary: s)
  case 0
  then show ?case by (simp add: flm_extend_back.simps)
next
  case (Suc d)
  then show ?case by (subst flm_extend_back.simps) simp
qed

lemma flm_extend_fwd_same:
  "t \<le> length xs
     \<Longrightarrow> flm_extend_fwd xs xs (length xs) (length xs) (0, 0, t) = Inr (0, 0, length xs)"
proof (induction "length xs - t" arbitrary: t)
  case 0
  then show ?case by (simp add: flm_extend_fwd.simps)
next
  case (Suc m)
  then have "flm_extend_fwd xs xs (length xs) (length xs) (0, 0, t + 1) = Inr (0, 0, length xs)"
    by simp
  moreover have "t < length xs" using Suc.hyps(2) by simp
  ultimately show ?case by (subst flm_extend_fwd.simps) simp
qed

lemma difflib_find_longest_match_same:
  "difflib_find_longest_match xs xs 0 (length xs) 0 (length xs) = Inr (0, 0, length xs)"
proof -
  have "diag_state xs 0 Map.empty (0, 0, 0)" by (simp add: diag_state_def)
  then obtain d s where
    r: "flm_rows xs xs 0 (length xs) 0 (length xs) Map.empty (0, 0, 0) = Inr (d, d, s)"
    using flm_rows_diag [of 0 xs Map.empty "(0, 0, 0)"] by auto
  have "block_in 0 (length xs) (d, d, s)"
    using flm_rows_block_in [OF r, of 0] by (simp add: block_in_def)
  then have ds: "d + s \<le> length xs" by (auto simp: block_in_def split: if_splits)
  show ?thesis
    using r flm_extend_back_same [OF ds] flm_extend_fwd_same [of "s + d" xs] ds
    by (simp add: difflib_find_longest_match_def flm_junk_back_def flm_junk_fwd_def)
qed

lemma flm_subst_agree:
  assumes "lines_agree a b" "n \<le> length a" "length cur = length a"
    and "\<forall>i < n. cur ! i = b ! i" "\<forall>i. n \<le> i \<and> i < length a \<longrightarrow> cur ! i = a ! i"
  shows "\<exists>ms'. flm_subst 0 (zip (drop n a) (drop n b)) n cur ms = Inr (b, ms')"
  using assms
proof (induction "length a - n" arbitrary: n cur ms)
  case 0
  then have "n = length a" "length b = length a" by (auto simp: lines_agree_def)
  moreover have "cur = b"
    using 0 \<open>n = length a\<close> \<open>length b = length a\<close> by (auto intro: nth_equalityI)
  ultimately show ?case by simp
next
  case (Suc k)
  then have n: "n < length a" "n < length b" by (auto simp: lines_agree_def)
  have z: "zip (drop n a) (drop n b) = (a ! n, b ! n) # zip (drop (n + 1) a) (drop (n + 1) b)"
    using n by (simp add: Cons_nth_drop_Suc [symmetric])
  from Suc.prems(1) n obtain m where
    m: "line_matches (a ! n) (b ! n) = Inr m" "m \<or> a ! n = b ! n"
    by (auto simp: lines_agree_def)
  have k: "k = length a - (n + 1)" using Suc.hyps(2) by simp
  show ?case
  proof (cases m)
    case True
    have "\<exists>ms'. flm_subst 0 (zip (drop (n + 1) a) (drop (n + 1) b)) (n + 1) (cur[n := b ! n])
             (ms @ [(n, a ! n)]) = Inr (b, ms')"
      by (rule Suc.hyps(1) [OF k Suc.prems(1)])
        (use n Suc.prems in \<open>auto simp: nth_list_update less_Suc_eq\<close>)
    then show ?thesis using z m True by simp
  next
    case False
    then have eq: "a ! n = b ! n" using m by simp
    have "\<exists>ms'. flm_subst 0 (zip (drop (n + 1) a) (drop (n + 1) b)) (n + 1) cur ms = Inr (b, ms')"
      by (rule Suc.hyps(1) [OF k Suc.prems(1)])
        (use n Suc.prems eq in \<open>auto simp: less_Suc_eq\<close>)
    then show ?thesis using z m False by simp
  qed
qed

lemma find_longest_match_agree:
  assumes "lines_agree a b"
  shows "find_longest_match a b 0 (length a) 0 (length b) = Inr (a, 0, 0, length a)"
proof -
  have len: "length b = length a" using assms by (simp add: lines_agree_def)
  obtain ms where s: "flm_subst 0 (zip a b) 0 a [] = Inr (b, ms)"
    using flm_subst_agree [OF assms, of 0 a "[]"] by auto
  have "find_longest_match a b 0 (length a) 0 (length b)
          = Inr (flm_restore 0 ms b, 0, 0, length a)"
    using s difflib_find_longest_match_same [of b] len
    by (simp add: find_longest_match_def slice_def)
  then show ?thesis
    using find_longest_match_frame [of a b 0 "length a" 0 "length b"] by simp
qed

lemma get_opcodes_agree:
  assumes "lines_agree a b"
  shows "get_opcodes a b
           = Inr (a, if length a = 0 then [] else [(Equal, 0, length a, 0, length a)])"
proof -
  have len: "length b = length a" using assms by (simp add: lines_agree_def)
  note f = find_longest_match_agree [OF assms]
  have g: "gmb_loop a b [(0, length a, 0, length b)] []
             = Inr (a, if length a = 0 then [] else [(0, 0, length a)])"
    using f len by (simp add: gmb_loop.simps)
  show ?thesis
    using g len
    by (simp add: get_opcodes_def get_matching_blocks_def sort_blocks_def)
qed

lemma get_grouped_opcodes_agree:
  assumes "lines_agree a b"
  shows "get_grouped_opcodes a b n = Inr (a, [])"
proof (cases "length a = 0")
  case True
  then show ?thesis
    using get_opcodes_agree [OF assms]
    by (simp add: get_grouped_opcodes_def fix_first_def fix_last_def)
next
  case False
  then show ?thesis
    using get_opcodes_agree [OF assms]
    by (simp add: get_grouped_opcodes_def fix_first_def fix_last_def)
qed

lemma unified_diff_no_groups:
  assumes "get_grouped_opcodes a b n = Inr (a', [])"
  shows "unified_diff a b fromfile tofile fromfiledate tofiledate n lineterm = Inr (a, [])"
  using assms get_grouped_opcodes_frame [OF assms]
  by (simp add: unified_diff_def)

lemma run_path_passed:
  assumes "path \<notin> set (seen st0)" "w_size w (path_join (w_cwd w) path) = Some sz" "sz \<noteq> 0"
    and "basetmp opts = None"
    and "test (w_cwd w) (path_join (w_cwd w) path) (w_salt w (path_join (w_cwd w) path))
           (w_lines w (path_join (w_cwd w) path)) (w_output w (path_join (w_cwd w) path))
         = Inr (refout, postout, [])"
  shows "run_path w opts path st0
     = Inr (st0\<lparr>seen := seen st0 @ [path],
                executed := executed st0 @ [(path, path_join (w_cwd w) path)],
                out := out st0 @ (if verbose opts then [path @ '': '', ''passed\<newline>'']
                                  else [''.''])\<rparr>)"
  using assms by (simp add: run_path_def Let_def truthy_def)

text \<open>
  C6. When the grouped diff has no group, \<open>unified_diff\<close> yields no line, not even the
  two header lines, and \<open>test\<close> returns the empty list as the diff. In particular this
  is so when the expected and the actual transcript are equal line for line or differ
  only at tagged lines whose pattern accepts the actual line (with every pattern test
  returning). The empty diff is the pass signal: \<open>run\<close> then yields the status of a
  passed test.
\<close>

theorem no_hunks_no_diff:
  "(get_grouped_opcodes a b n = Inr (a', []) \<longrightarrow>
      unified_diff a b fromfile tofile fromfiledate tofiledate n lineterm = Inr (a, [])) \<and>
   (lines_agree a b \<longrightarrow>
      get_grouped_opcodes a b n = Inr (a, []) \<and>
      unified_diff a b fromfile tofile fromfiledate tofiledate n lineterm = Inr (a, [])) \<and>
   (test_postout salt flines output = Inr postout
      \<and> (lines_agree flines postout \<or> get_grouped_opcodes flines postout 3 = Inr (a'', []))
      \<longrightarrow> test getcwd path0 salt flines output = Inr (flines, postout, [])) \<and>
   (path \<notin> set (seen st0) \<and> w_size w (path_join (w_cwd w) path) = Some sz \<and> sz \<noteq> 0
      \<and> basetmp opts = None
      \<and> test (w_cwd w) (path_join (w_cwd w) path) (w_salt w (path_join (w_cwd w) path))
           (w_lines w (path_join (w_cwd w) path)) (w_output w (path_join (w_cwd w) path))
         = Inr (refout, postout', [])
      \<longrightarrow> run_path w opts path st0
            = Inr (st0\<lparr>seen := seen st0 @ [path],
                       executed := executed st0 @ [(path, path_join (w_cwd w) path)],
                       out := out st0 @ (if verbose opts then [path @ '': '', ''passed\<newline>'']
                                         else [''.''])\<rparr>))"
proof -
  have 1: "unified_diff a b fromfile tofile fromfiledate tofiledate n lineterm = Inr (a, [])"
    if "get_grouped_opcodes a b n = Inr (a', [])"
    using that by (rule unified_diff_no_groups)
  have 2: "get_grouped_opcodes a b n = Inr (a, []) \<and>
      unified_diff a b fromfile tofile fromfiledate tofiledate n lineterm = Inr (a, [])"
    if "lines_agree a b"
    using get_grouped_opcodes_agree [OF that, of n]
      unified_diff_no_groups [of a b n a fromfile tofile fromfiledate tofiledate lineterm]
    by simp
  have 3: "test getcwd path0 salt flines output = Inr (flines, postout, [])"
    if p: "test_postout salt flines output = Inr postout"
      and g: "lines_agree flines postout \<or> get_grouped_opcodes flines postout 3 = Inr (a'', [])"
  proof -
    have "\<exists>x. get_grouped_opcodes flines postout 3 = Inr (x, [])"
      using g get_grouped_opcodes_agree [of flines postout 3] by blast
    then obtain x where "get_grouped_opcodes flines postout 3 = Inr (x, [])" ..
    then have "unified_diff flines postout (path_abspath getcwd path0)
                 (path_abspath getcwd path0 @ ''.err'') [] [] 3 ''\<newline>''
                 = Inr (flines, [])"
      by (rule unified_diff_no_groups)
    then show ?thesis using p by (simp add: test_def Let_def test_refout_lines)
  qed
  show ?thesis
    using 1 2 3 run_path_passed [of path st0 w sz opts refout postout'] by blast
qed

text \<open>
  The theorem at an expected transcript whose second line is a pattern that accepts the
  actual line.
\<close>

theorem no_hunks_no_diff_witness:
  "lines_agree [''  $ ls\<newline>'', ''  a.* (re)\<newline>''] [''  $ ls\<newline>'', ''  abc\<newline>'']
   \<and> unified_diff [''  $ ls\<newline>'', ''  a.* (re)\<newline>''] [''  $ ls\<newline>'', ''  abc\<newline>'']
        ''x'' ''y'' [] [] 3 ''\<newline>''
      = Inr ([''  $ ls\<newline>'', ''  a.* (re)\<newline>''], [])"
proof -
  have 0: "line_matches ''  $ ls\<newline>'' ''  $ ls\<newline>'' = Inr False"
    by code_simp
  have 1: "line_matches ''  a.* (re)\<newline>'' ''  abc\<newline>'' = Inr True"
    by code_simp
  have la: "lines_agree [''  $ ls\<newline>'', ''  a.* (re)\<newline>''] [''  $ ls\<newline>'', ''  abc\<newline>'']"
    using 0 1 by (auto simp: lines_agree_def less_Suc_eq)
  show ?thesis
    using la
      no_hunks_no_diff [of "[''  $ ls\<newline>'', ''  a.* (re)\<newline>'']" "[''  $ ls\<newline>'', ''  abc\<newline>'']"
        3 "[]" "''x''" "''y''" "[]" "[]" "''\<newline>''"]
    by blast
qed

end
